theory Spec2Isabelle
  imports Main "HOL-Library.Word"
begin

unbundle bit_operations_syntax

section \<open>The allocator of mm.c as state-passing functions\<close>

text \<open>
  Addresses and \<open>size_t\<close> values are 64-bit words; pointer arithmetic is the unscaled
  byte arithmetic of the macros \<open>PADD\<close> and \<open>PSUB\<close>. The memory is read and
  written one 8-byte word at a time (\<open>GET\<close>, \<open>PUT\<close>), so it is a function from the
  address of a word to the word stored there.
\<close>

type_synonym addr = "64 word"

record state =
  mem :: "addr \<Rightarrow> 64 word"
  mem_brk :: addr
  mem_max_addr :: addr
  grow_calls :: nat
  heap_start :: addr

subsection \<open>Region manager\<close>

text \<open>
  Modelled from the spec: \<open>mem_sbrk\<close> of memlib.c is not among the sources. The Region
  Manager extends the region by the number of bytes asked for and returns the old end of
  the region, or reports a failure (the pointer \<open>-1\<close>, which \<open>extend_heap\<close> tests with
  \<open>(long) bp < 0\<close>) and leaves the region as it is when the extension does not fit below
  \<open>mem_max_addr\<close>. The field \<open>grow_calls\<close> counts the extensions granted.
\<close>

definition mem_sbrk :: "64 word \<Rightarrow> state \<Rightarrow> addr \<times> state" where
  "mem_sbrk incr s =
     (if unat (mem_brk s) + unat incr > unat (mem_max_addr s) then (- 1, s)
      else (mem_brk s, s\<lparr>mem_brk := mem_brk s + incr, grow_calls := Suc (grow_calls s)\<rparr>))"

subsection \<open>Constants and macros\<close>

definition WSIZE :: "64 word" where "WSIZE = 8"
definition DSIZE :: "64 word" where "DSIZE = 16"
definition CHUNKSIZE :: "64 word" where "CHUNKSIZE = push_bit 12 1"
definition OVERHEAD :: "64 word" where "OVERHEAD = 16"

definition PACK :: "64 word \<Rightarrow> 64 word \<Rightarrow> 64 word" where
  "PACK sz alloc = sz OR alloc"

definition GET :: "state \<Rightarrow> addr \<Rightarrow> 64 word" where
  "GET s p = mem s p"

definition PUT :: "addr \<Rightarrow> 64 word \<Rightarrow> state \<Rightarrow> state" where
  "PUT p val s = s\<lparr>mem := (mem s)(p := val)\<rparr>"

definition PADD :: "addr \<Rightarrow> 64 word \<Rightarrow> addr" where
  "PADD p val = p + val"

definition PSUB :: "addr \<Rightarrow> 64 word \<Rightarrow> addr" where
  "PSUB p val = p - val"

definition GET_SIZE :: "state \<Rightarrow> addr \<Rightarrow> 64 word" where
  "GET_SIZE s p = GET s p AND NOT 0xf"

definition GET_ALLOC :: "state \<Rightarrow> addr \<Rightarrow> 64 word" where
  "GET_ALLOC s p = GET s p AND 0x1"

definition HDRP :: "addr \<Rightarrow> addr" where
  "HDRP bp = PSUB bp WSIZE"

definition FTRP :: "state \<Rightarrow> addr \<Rightarrow> addr" where
  "FTRP s bp = PADD bp (GET_SIZE s (HDRP bp) - DSIZE)"

definition NEXT_BLKP :: "state \<Rightarrow> addr \<Rightarrow> addr" where
  "NEXT_BLKP s bp = PADD bp (GET_SIZE s (HDRP bp))"

definition PREV_BLKP :: "state \<Rightarrow> addr \<Rightarrow> addr" where
  "PREV_BLKP s bp = PSUB bp (GET_SIZE s (PSUB bp DSIZE))"

definition HEAD_PTR :: "state \<Rightarrow> addr" where
  "HEAD_PTR s = PSUB (heap_start s) DSIZE"

definition HEAD :: "state \<Rightarrow> addr" where
  "HEAD s = GET s (PSUB (heap_start s) DSIZE)"

definition NEXT_FREE_BLKP :: "state \<Rightarrow> addr \<Rightarrow> addr" where
  "NEXT_FREE_BLKP s bp = GET s bp"

definition PREV_FREE_BLKP :: "state \<Rightarrow> addr \<Rightarrow> addr" where
  "PREV_FREE_BLKP s bp = GET s (PADD bp WSIZE)"

definition NEXT_FREE_BLKP_POS :: "addr \<Rightarrow> addr" where
  "NEXT_FREE_BLKP_POS bp = bp"

definition PREV_FREE_BLKP_POS :: "addr \<Rightarrow> addr" where
  "PREV_FREE_BLKP_POS bp = PADD bp WSIZE"

definition NULL :: addr where "NULL = 0"

subsection \<open>Free list\<close>

definition add_to_list :: "addr \<Rightarrow> state \<Rightarrow> state" where
  "add_to_list bp s =
     (let s1 = (if HEAD s \<noteq> NULL then PUT (PREV_FREE_BLKP_POS (HEAD s)) bp s else s);
          s2 = PUT (NEXT_FREE_BLKP_POS bp) (HEAD s1) s1;
          s3 = PUT (PREV_FREE_BLKP_POS bp) NULL s2
      in PUT (HEAD_PTR s3) bp s3)"

definition remove_from_list :: "addr \<Rightarrow> state \<Rightarrow> state" where
  "remove_from_list bp s =
     (if bp = HEAD s \<and> NEXT_FREE_BLKP_POS bp \<noteq> NULL then
        PUT (HEAD_PTR s) (NEXT_FREE_BLKP s bp) s
      else if bp = HEAD s \<and> NEXT_FREE_BLKP_POS bp = NULL then
        PUT bp 0 s
      else
        (let s1 = (if NEXT_FREE_BLKP s bp \<noteq> NULL
                   then PUT (PREV_FREE_BLKP_POS (NEXT_FREE_BLKP s bp)) (PREV_FREE_BLKP s bp) s
                   else s)
         in PUT (NEXT_FREE_BLKP_POS (PREV_FREE_BLKP s1 bp)) (NEXT_FREE_BLKP s1 bp) s1))"

subsection \<open>Placement, coalescing, search and growth\<close>

definition place :: "addr \<Rightarrow> 64 word \<Rightarrow> state \<Rightarrow> state" where
  "place bp asize s =
     (let nextsize = GET_SIZE s (HDRP bp) - asize;
          s1 = remove_from_list bp s
      in if nextsize < DSIZE + OVERHEAD then
           (let s2 = PUT (HDRP bp) (PACK (GET_SIZE s1 (HDRP bp)) 1) s1
            in PUT (FTRP s2 bp) (PACK (GET_SIZE s2 (HDRP bp)) 1) s2)
         else
           (let s2 = PUT (FTRP s1 bp) nextsize s1;
                s3 = PUT (PADD bp (asize - WSIZE)) nextsize s2;
                s4 = add_to_list (PADD bp asize) s3;
                s5 = PUT (HDRP bp) (PACK asize 1) s4
            in PUT (FTRP s5 bp) (PACK asize 1) s5))"

definition coalesce :: "addr \<Rightarrow> state \<Rightarrow> addr \<times> state" where
  "coalesce bp s =
     (let prev_free = (GET_ALLOC s (HDRP (PREV_BLKP s bp)) = 0);
          s1 = (if prev_free
                then PUT (HDRP (PREV_BLKP s bp))
                         (GET_SIZE s (HDRP (PREV_BLKP s bp)) + GET_SIZE s (HDRP bp)) s
                else s);
          coalesced_block = (if prev_free then PREV_BLKP s1 bp else bp);
          s2 = (if GET_ALLOC s1 (HDRP (NEXT_BLKP s1 coalesced_block)) = 0
                then (let s' = remove_from_list (NEXT_BLKP s1 coalesced_block) s1
                      in PUT (HDRP coalesced_block)
                             (GET_SIZE s' (HDRP (NEXT_BLKP s' coalesced_block))
                                + GET_SIZE s' (HDRP coalesced_block)) s')
                else s1);
          s3 = PUT (FTRP s2 coalesced_block) (GET s2 (HDRP coalesced_block)) s2;
          s4 = (if \<not> prev_free then add_to_list coalesced_block s3 else s3)
      in (coalesced_block, s4))"

text \<open>
  The loop of \<open>find_fit\<close> follows the next-links until it meets \<open>NULL\<close>; on a cyclic
  list with no fitting block it does not return, which is the value \<open>None\<close> here.
\<close>

partial_function (option) find_fit_from :: "state \<Rightarrow> 64 word \<Rightarrow> addr \<Rightarrow> addr option" where
  "find_fit_from s asize bp =
     (if bp = NULL then Some NULL
      else if asize \<le> GET_SIZE s (HDRP bp) then Some bp
      else find_fit_from s asize (NEXT_FREE_BLKP s bp))"

definition find_fit :: "64 word \<Rightarrow> state \<Rightarrow> addr option" where
  "find_fit asize s = find_fit_from s asize (HEAD s)"

definition extend_heap :: "64 word \<Rightarrow> state \<Rightarrow> addr \<times> state" where
  "extend_heap words s =
     (let size0 = words * WSIZE;
          sz = (if words mod 2 = 1 then size0 + WSIZE else size0);
          (bp, s1) = mem_sbrk sz s
      in if sint bp < 0 then (NULL, s1)
         else
           (let s2 = PUT (HDRP bp) (PACK sz 0) s1;
                s3 = PUT (FTRP s2 bp) (PACK sz 0) s2;
                s4 = PUT (HDRP (NEXT_BLKP s3 bp)) (PACK 0 1) s3
            in coalesce bp s4))"

subsection \<open>Public operations\<close>

definition mm_init :: "state \<Rightarrow> int \<times> state" where
  "mm_init s =
     (let (p, s0) = mem_sbrk (4 * WSIZE) s;
          s1 = s0\<lparr>heap_start := p\<rparr>
      in if heap_start s1 = NULL then (- 1, s1)
         else
           (let s2 = PUT (heap_start s1) 0 s1;
                s3 = PUT (PADD (heap_start s2) WSIZE) (PACK OVERHEAD 1) s2;
                s4 = PUT (PADD (heap_start s3) DSIZE) (PACK OVERHEAD 1) s3;
                s5 = PUT (PADD (heap_start s4) (WSIZE + DSIZE)) (PACK 0 1) s4;
                s6 = s5\<lparr>heap_start := PADD (heap_start s5) DSIZE\<rparr>;
                (r, s7) = extend_heap (CHUNKSIZE div WSIZE) s6
            in if r = NULL then (- 1, s7) else (0, s7)))"

definition max_size :: "64 word \<Rightarrow> 64 word \<Rightarrow> 64 word" where
  "max_size x y = (if x > y then x else y)"

text \<open>The adjusted block size, lines 238 to 243 of mm.c.\<close>

definition adjust_size :: "64 word \<Rightarrow> 64 word" where
  "adjust_size sz =
     (if sz \<le> DSIZE then DSIZE + OVERHEAD
      else DSIZE * ((sz + OVERHEAD + (DSIZE - 1)) div DSIZE))"

definition mm_malloc :: "64 word \<Rightarrow> state \<Rightarrow> (addr \<times> state) option" where
  "mm_malloc sz s =
     (if sz \<le> 0 then Some (NULL, s)
      else
        (let asize = adjust_size sz in
         case find_fit asize s of
           None \<Rightarrow> None
         | Some bp \<Rightarrow>
             if bp \<noteq> NULL then Some (bp, place bp asize s)
             else
               (let extendsize = max_size asize CHUNKSIZE;
                    (bp', s1) = extend_heap (extendsize div WSIZE) s
                in if bp' = NULL then Some (NULL, s1)
                   else Some (bp', place bp' asize s1))))"

definition mm_free :: "addr \<Rightarrow> state \<Rightarrow> state" where
  "mm_free bp s =
     (let s1 = PUT (FTRP s bp) (PACK (GET_SIZE s (HDRP bp)) 0) s;
          s2 = PUT (HDRP bp) (PACK (GET_SIZE s1 (HDRP bp)) 0) s1
      in snd (coalesce bp s2))"

section \<open>Auxiliary notions for the statements\<close>

text \<open>
  \<open>chain m p xs\<close>: following the next-links of the memory \<open>m\<close> from the pointer \<open>p\<close>
  visits exactly the block pointers \<open>xs\<close>, in this order, and then meets \<open>NULL\<close>.
\<close>

fun chain :: "(addr \<Rightarrow> 64 word) \<Rightarrow> addr \<Rightarrow> addr list \<Rightarrow> bool" where
  "chain m p [] = (p = NULL)"
| "chain m p (x # xs) = (p = x \<and> x \<noteq> NULL \<and> chain m (m x) xs)"

text \<open>The first block of a list of block pointers whose header size is at least \<open>asize\<close>.\<close>

definition first_fit :: "state \<Rightarrow> 64 word \<Rightarrow> addr list \<Rightarrow> addr option" where
  "first_fit s asize fl = find (\<lambda>bp. asize \<le> GET_SIZE s (HDRP bp)) fl"

text \<open>The state that a successful \<open>mm_init\<close> leaves behind, written out.\<close>

definition init_state :: "state \<Rightarrow> state" where
  "init_state s =
     s\<lparr>heap_start := mem_brk s + 16, mem_brk := mem_brk s + 4128,
       grow_calls := Suc (Suc (grow_calls s)),
       mem := (mem s)
            (mem_brk s + 8 := 17, mem_brk s + 16 := 17,
             mem_brk s + 24 := 4096, mem_brk s + 4120 := 1,
             mem_brk s + 4112 := 4096, mem_brk s + 32 := 0,
             mem_brk s + 40 := 0, mem_brk s := mem_brk s + 32)\<rparr>"

text \<open>A region of one megabyte at address \<open>0x1000\<close>, zero-filled, for the examples.\<close>

definition example_region :: state where
  "example_region =
     \<lparr>mem = (\<lambda>_. 0), mem_brk = 0x1000, mem_max_addr = 0x101000, grow_calls = 0,
      heap_start = NULL\<rparr>"

definition example_heap :: state where
  "example_heap = snd (mm_init example_region)"

text \<open>
  A heap whose free list has three blocks, for the examples. A client asks the example
  heap for 112, 16, 3360 and 16 bytes and then frees the third and the first block. The
  free list is then \<open>0x1020\<close> (128 bytes), \<open>0x10c0\<close> (3376 bytes), \<open>0x1e10\<close> (528 bytes),
  and the two blocks that are still allocated keep the three apart.
\<close>

definition heap_a :: state where
  "heap_a = snd (the (mm_malloc 112 example_heap))"

definition heap_b :: state where
  "heap_b = snd (the (mm_malloc 16 heap_a))"

definition heap_c :: state where
  "heap_c = snd (the (mm_malloc 3360 heap_b))"

definition heap_d :: state where
  "heap_d = snd (the (mm_malloc 16 heap_c))"

definition heap_e :: state where
  "heap_e = mm_free 0x10c0 heap_d"

definition fit_heap :: state where
  "fit_heap = mm_free 0x1020 heap_e"

text \<open>The same heap after \<open>extend_heap\<close> has grown it by 5024 bytes (628 words).\<close>

definition grown_heap :: state where
  "grown_heap = snd (extend_heap 628 fit_heap)"

section \<open>The heap as a sequence of blocks\<close>

text \<open>
  The blocks between the prologue and the epilogue are described by a list, each block
  with its size in bytes and its allocated flag. Addresses are natural numbers here:
  \<open>ptr k\<close> is the pointer with the address \<open>k\<close>, \<open>mv s k\<close> the word that the memory holds at
  the address \<open>k\<close>, and \<open>tag n a\<close> the boundary-tag word \<open>PACK n a\<close> of a block of \<open>n\<close> bytes.
\<close>

type_synonym block = "nat \<times> bool"

definition ptr :: "nat \<Rightarrow> addr" where
  "ptr k = of_nat k"

definition tag :: "nat \<Rightarrow> bool \<Rightarrow> 64 word" where
  "tag n a = PACK (of_nat n) (if a then 1 else 0)"

definition mv :: "state \<Rightarrow> nat \<Rightarrow> 64 word" where
  "mv s k = (if k < 2 ^ 64 then mem s (ptr k) else 0)"

text \<open>The number of bytes that a list of blocks occupies.\<close>

fun total :: "block list \<Rightarrow> nat" where
  "total [] = 0"
| "total ((n, a) # bs) = n + total bs"

text \<open>
  \<open>segs M k bs\<close>: in the memory \<open>M\<close> the blocks \<open>bs\<close> lie one after the other, the first with
  its payload at \<open>k\<close>; a block of \<open>n\<close> bytes with payload at \<open>k\<close> has its header at \<open>k - 8\<close>
  and its footer at \<open>k + n - 16\<close>, and both hold the same tag.
\<close>

fun segs :: "(nat \<Rightarrow> 64 word) \<Rightarrow> nat \<Rightarrow> block list \<Rightarrow> bool" where
  "segs M k [] = True"
| "segs M k ((n, a) # bs) = (M (k - 8) = tag n a \<and> M (k + n - 16) = tag n a \<and> segs M (k + n) bs)"

text \<open>The payload addresses of all blocks, and of the free ones, in address order.\<close>

fun addrs :: "nat \<Rightarrow> block list \<Rightarrow> nat list" where
  "addrs k [] = []"
| "addrs k ((n, a) # bs) = k # addrs (k + n) bs"

fun free_addrs :: "nat \<Rightarrow> block list \<Rightarrow> nat list" where
  "free_addrs k [] = []"
| "free_addrs k ((n, a) # bs) = (if a then free_addrs (k + n) bs else k # free_addrs (k + n) bs)"

text \<open>No two blocks that follow one another in the heap are both free.\<close>

fun no_adj_free :: "block list \<Rightarrow> bool" where
  "no_adj_free ((n, a) # (n', a') # bs) = ((a \<or> a') \<and> no_adj_free ((n', a') # bs))"
| "no_adj_free _ = True"

text \<open>
  \<open>nseg M p fl q\<close>: the next-links from the pointer \<open>p\<close> run through the blocks \<open>fl\<close> and
  end in \<open>q\<close>. \<open>prev_ok M fl\<close>: every block of \<open>fl\<close> but the first has its previous-link
  set to the block before it in \<open>fl\<close>. The previous-link of the first block is left
  open, since \<open>remove_from_list\<close> does not reset it when it removes the head.
\<close>

fun nseg :: "(nat \<Rightarrow> 64 word) \<Rightarrow> 64 word \<Rightarrow> nat list \<Rightarrow> 64 word \<Rightarrow> bool" where
  "nseg M p [] q = (p = q)"
| "nseg M p (x # xs) q = (p = ptr x \<and> nseg M (M x) xs q)"

fun prev_ok :: "(nat \<Rightarrow> 64 word) \<Rightarrow> nat list \<Rightarrow> bool" where
  "prev_ok M (x # y # r) = (M (y + 8) = ptr x \<and> prev_ok M (y # r))"
| "prev_ok M _ = True"

text \<open>Every block has at least 32 bytes, and a multiple of 16.\<close>

definition sized :: "block list \<Rightarrow> bool" where
  "sized bs = (\<forall>(n, a) \<in> set bs. 32 \<le> n \<and> 16 dvd n)"

text \<open>
  The addresses \<open>xs\<close> lie above the prologue, below \<open>2\<^sup>6\<^sup>4\<close>, and any two of them are at
  least 32 bytes apart.
\<close>

definition spaced :: "nat \<Rightarrow> nat list \<Rightarrow> bool" where
  "spaced hp xs = (\<forall>x \<in> set xs. hp + 32 \<le> x \<and> x + 32 \<le> 2 ^ 64
                      \<and> (\<forall>y \<in> set xs. x = y \<or> x + 32 \<le> y \<or> y + 32 \<le> x))"

text \<open>
  The addresses of the header and footer words of the blocks, together with those of the
  prologue and of the epilogue.
\<close>

fun tags :: "nat \<Rightarrow> block list \<Rightarrow> nat list" where
  "tags k [] = []"
| "tags k ((n, a) # bs) = (k - 8) # (k + n - 16) # tags (k + n) bs"

definition atags :: "nat \<Rightarrow> block list \<Rightarrow> nat list" where
  "atags hp bs = (hp + 8) # (hp + 16) # tags (hp + 32) bs @ [hp + 32 + total bs - 8]"

text \<open>
  \<open>lay s hp bs\<close>: the region of the state \<open>s\<close> starts at the address \<open>hp\<close>, where the head
  slot of the free list is. The prologue has its header at \<open>hp + 8\<close> and its footer at
  \<open>hp + 16\<close>, which is where \<open>heap_start\<close> points; the blocks \<open>bs\<close> follow from the payload
  address \<open>hp + 32\<close>; the epilogue header follows the last block, and the region ends
  behind it, in the lower half of the address space.
\<close>

definition lay :: "state \<Rightarrow> nat \<Rightarrow> block list \<Rightarrow> bool" where
  "lay s hp bs \<longleftrightarrow>
     heap_start s = ptr (hp + 16) \<and> mv s (hp + 8) = 17 \<and> mv s (hp + 16) = 17
     \<and> segs (mv s) (hp + 32) bs \<and> mv s (hp + 32 + total bs - 8) = 1 \<and> sized bs
     \<and> unat (mem_brk s) = hp + 32 + total bs
     \<and> unat (mem_brk s) \<le> unat (mem_max_addr s) \<and> unat (mem_max_addr s) \<le> 2 ^ 63"

text \<open>
  \<open>lst s hp fl\<close>: the next-links from the head slot run through the blocks \<open>fl\<close>, without
  repetition, and end in \<open>NULL\<close>; the previous-links lead back.
\<close>

definition lst :: "state \<Rightarrow> nat \<Rightarrow> nat list \<Rightarrow> bool" where
  "lst s hp fl \<longleftrightarrow> nseg (mv s) (mv s hp) fl 0 \<and> prev_ok (mv s) fl \<and> distinct fl"

text \<open>The addresses of the link words of the blocks of a free list.\<close>

definition links :: "nat list \<Rightarrow> nat set" where
  "links fl = set fl \<union> (\<lambda>u. u + 8) ` set fl"

text \<open>
  The second half of \<open>coalesce\<close>, lines 345 to 348 of mm.c: the merge with the next
  block and the write of the footer.
\<close>

definition merge_next :: "addr \<Rightarrow> state \<Rightarrow> state" where
  "merge_next cb s1 =
     (let s2 = (if GET_ALLOC s1 (HDRP (NEXT_BLKP s1 cb)) = 0
                then (let s' = remove_from_list (NEXT_BLKP s1 cb) s1
                      in PUT (HDRP cb)
                             (GET_SIZE s' (HDRP (NEXT_BLKP s' cb)) + GET_SIZE s' (HDRP cb)) s')
                else s1)
      in PUT (FTRP s2 cb) (GET s2 (HDRP cb)) s2)"

text \<open>
  The well-formed heap: the memory is laid out as the blocks \<open>bs\<close>, the free list consists
  of the blocks \<open>fl\<close>, the blocks on the free list are the free blocks of \<open>bs\<close>, and no two
  neighbours in \<open>bs\<close> are both free.
\<close>

definition heap_inv :: "state \<Rightarrow> nat \<Rightarrow> block list \<Rightarrow> nat list \<Rightarrow> bool" where
  "heap_inv s hp bs fl \<longleftrightarrow>
     lay s hp bs \<and> lst s hp fl \<and> set fl = set (free_addrs (hp + 32) bs) \<and> no_adj_free bs"

text \<open>The payload addresses of the allocated blocks.\<close>

fun alloc_addrs :: "nat \<Rightarrow> block list \<Rightarrow> nat list" where
  "alloc_addrs k [] = []"
| "alloc_addrs k ((n, a) # bs) = (if a then k # alloc_addrs (k + n) bs else alloc_addrs (k + n) bs)"

text \<open>
  The states a client can bring the allocator into, together with the set of payload
  pointers the client holds: after a successful \<open>mm_init\<close> with the region in the lower
  half of the address space (which the test \<open>(long) bp < 0\<close> of \<open>extend_heap\<close>
  presupposes), by requests of at most \<open>2 ^ 64 - 32\<close> bytes, by freeing a pointer it
  holds, and by writing a word into the payload of a block it holds.
\<close>

inductive reach :: "state \<Rightarrow> addr set \<Rightarrow> bool" where
  init: "mm_init s0 = (0, s) \<Longrightarrow> unat (mem_max_addr s0) \<le> 2 ^ 63 \<Longrightarrow> reach s {}"
| malloc: "reach s L \<Longrightarrow> unat sz \<le> 2 ^ 64 - 32 \<Longrightarrow> mm_malloc sz s = Some (p, s') \<Longrightarrow>
           reach s' (if p = NULL then L else insert p L)"
| free: "reach s L \<Longrightarrow> p \<in> L \<Longrightarrow> reach (mm_free p s) (L - {p})"
| store: "reach s L \<Longrightarrow> p \<in> L \<Longrightarrow> off < GET_SIZE s (HDRP p) - DSIZE \<Longrightarrow> off mod 8 = 0 \<Longrightarrow>
          reach (PUT (PADD p off) v s) L"

text \<open>
  The example heap after a request of \<open>2\<^sup>6\<^sup>4 - 20\<close> bytes, for which the adjusted size
  wraps around to 0.
\<close>

definition overflow_heap :: state where
  "overflow_heap = snd (the (mm_malloc 0xFFFFFFFFFFFFFFEC example_heap))"

text \<open>
  The example heap after a request of \<open>2\<^sup>6\<^sup>4 - 1\<close> bytes, for which the adjusted size
  wraps around to 16, then after a request of 16 bytes, then after the first of the two
  blocks has been freed.
\<close>

definition wrap_a :: state where
  "wrap_a = snd (the (mm_malloc 0xFFFFFFFFFFFFFFFF example_heap))"

definition wrap_b :: state where
  "wrap_b = snd (the (mm_malloc 16 wrap_a))"

definition wrap_c :: state where
  "wrap_c = mm_free 0x1020 wrap_b"

text \<open>
  The heap with three free blocks after its allocated block \<open>0x1df0\<close>, which lies between
  the free blocks \<open>0x10c0\<close> and \<open>0x1e10\<close>, has been freed.
\<close>

definition merged_heap :: state where
  "merged_heap = mm_free 0x1df0 fit_heap"

section \<open>Basic facts\<close>

lemmas macro_defs = WSIZE_def DSIZE_def CHUNKSIZE_def OVERHEAD_def PACK_def GET_def PUT_def
  PADD_def PSUB_def GET_SIZE_def GET_ALLOC_def HDRP_def FTRP_def NEXT_BLKP_def PREV_BLKP_def
  HEAD_PTR_def HEAD_def NEXT_FREE_BLKP_def PREV_FREE_BLKP_def NEXT_FREE_BLKP_POS_def
  PREV_FREE_BLKP_POS_def NULL_def

lemma PUT_fields [simp]:
  "grow_calls (PUT p v s) = grow_calls s"
  "mem_brk (PUT p v s) = mem_brk s"
  "heap_start (PUT p v s) = heap_start s"
  "mem_max_addr (PUT p v s) = mem_max_addr s"
  by (simp_all add: PUT_def)

lemma add_to_list_fields [simp]:
  "grow_calls (add_to_list bp s) = grow_calls s"
  "mem_brk (add_to_list bp s) = mem_brk s"
  "heap_start (add_to_list bp s) = heap_start s"
  "mem_max_addr (add_to_list bp s) = mem_max_addr s"
  by (simp_all add: add_to_list_def Let_def)

lemma remove_from_list_fields [simp]:
  "grow_calls (remove_from_list bp s) = grow_calls s"
  "mem_brk (remove_from_list bp s) = mem_brk s"
  "heap_start (remove_from_list bp s) = heap_start s"
  "mem_max_addr (remove_from_list bp s) = mem_max_addr s"
  by (simp_all add: remove_from_list_def Let_def)

lemma place_fields [simp]:
  "grow_calls (place bp asize s) = grow_calls s"
  "mem_brk (place bp asize s) = mem_brk s"
  "heap_start (place bp asize s) = heap_start s"
  "mem_max_addr (place bp asize s) = mem_max_addr s"
  by (simp_all add: place_def Let_def)

subsection \<open>The search loop\<close>

lemma find_fit_from_hit:
  "bp \<noteq> NULL \<Longrightarrow> asize \<le> GET_SIZE s (HDRP bp) \<Longrightarrow> find_fit_from s asize bp = Some bp"
  by (subst find_fit_from.simps) simp

lemma find_fit_from_chain:
  "chain (mem s) p fl \<Longrightarrow>
   find_fit_from s asize p = Some (case first_fit s asize fl of None \<Rightarrow> NULL | Some bp \<Rightarrow> bp)"
proof (induction fl arbitrary: p)
  case Nil
  then show ?case by (subst find_fit_from.simps) (simp add: first_fit_def)
next
  case (Cons x xs)
  from Cons.prems have px: "p = x" "x \<noteq> NULL" and ch: "chain (mem s) (mem s x) xs" by simp_all
  show ?case
  proof (cases "asize \<le> GET_SIZE s (HDRP x)")
    case True
    then show ?thesis using px by (subst find_fit_from.simps) (simp add: first_fit_def)
  next
    case False
    have "find_fit_from s asize p = find_fit_from s asize (mem s x)"
      using px False by (subst find_fit_from.simps) (simp add: NEXT_FREE_BLKP_def GET_def)
    then show ?thesis using Cons.IH [OF ch] False by (simp add: first_fit_def)
  qed
qed

lemma first_fit_Some_neq_NULL:
  "chain m p fl \<Longrightarrow> first_fit s asize fl = Some bp \<Longrightarrow> bp \<noteq> NULL"
  by (induction fl arbitrary: p) (auto simp: first_fit_def split: if_splits)

subsection \<open>Initialisation\<close>

lemma mm_init_success:
  assumes "mm_init s = (0, s1)"
  shows "s1 = init_state s" and "mem_brk s \<noteq> 0" and "mem_brk s + 32 \<noteq> 0"
    and "unat (mem_brk s) + 4128 \<le> unat (mem_max_addr s)" and "0 \<le> sint (mem_brk s + 32)"
proof -
  have a: "unat (mem_brk s) + 32 \<le> unat (mem_max_addr s)"
    using assms
    by (simp add: mm_init_def mem_sbrk_def extend_heap_def macro_defs Let_def
        split: if_splits prod.splits)
  then have u: "unat (mem_brk s + 32) = unat (mem_brk s) + 32"
    using unsigned_less [of "mem_max_addr s", where 'a = nat] by (simp add: unat_word_ariths)
  show b: "mem_brk s \<noteq> 0"
    using assms a
    by (simp add: mm_init_def mem_sbrk_def NULL_def WSIZE_def Let_def split: if_splits prod.splits)
  show c: "mem_brk s + 32 \<noteq> 0" using u by (metis add_is_0 unat_0 zero_neq_numeral)
  have d: "\<not> unat (mem_max_addr s) < unat (mem_brk s + 32) + 4096 \<and> \<not> sint (mem_brk s + 32) < 0"
    using assms a b
    by (simp add: mm_init_def mem_sbrk_def extend_heap_def macro_defs Let_def
        split: if_splits prod.splits)
  show "unat (mem_brk s) + 4128 \<le> unat (mem_max_addr s)" using d u by simp
  show "0 \<le> sint (mem_brk s + 32)" using d by simp
  show "s1 = init_state s"
    using assms a b d
    apply (simp add: mm_init_def mem_sbrk_def extend_heap_def coalesce_def add_to_list_def
        macro_defs Let_def init_state_def split: if_splits prod.splits)
    apply (drule sym)
    apply (simp add: add.commute [of "mem_brk s"])
    done
qed

lemma init_state_facts:
  "heap_start (init_state s) = mem_brk s + 16"
  "mem_brk (init_state s) = mem_brk s + 4128"
  "grow_calls (init_state s) = grow_calls s + 2"
  "HEAD (init_state s) = mem_brk s + 32"
  "GET_SIZE (init_state s) (HDRP (mem_brk s + 32)) = 4096"
  by (simp_all add: init_state_def macro_defs)

lemma adjust_4000: "adjust_size 4000 = 4016"
  by (simp add: adjust_size_def DSIZE_def OVERHEAD_def)

lemma mm_init_example: "mm_init example_region = (0, init_state example_region)"
  by (simp add: mm_init_def mem_sbrk_def extend_heap_def coalesce_def add_to_list_def
      macro_defs Let_def init_state_def example_region_def)

lemma example_heap_eq: "example_heap = init_state example_region"
  by (simp add: example_heap_def mm_init_example)

subsection \<open>The example heaps, evaluated\<close>

text \<open>A \<open>let\<close> is unfolded once the state it binds has been evaluated.\<close>

lemma let_state:
  "Let \<lparr>mem = m, mem_brk = b, mem_max_addr = x, grow_calls = g, heap_start = h\<rparr> f
     = f \<lparr>mem = m, mem_brk = b, mem_max_addr = x, grow_calls = g, heap_start = h\<rparr>"
  "Let True f' = f' True" "Let False f' = f' False"
  by (simp_all add: Let_def)

lemmas op_defs = place_def add_to_list_def remove_from_list_def coalesce_def mm_free_def let_state

lemma adjust_examples:
  "adjust_size 112 = 128" "adjust_size 16 = 32" "adjust_size 3360 = 3376"
  "adjust_size 300 = 320" "adjust_size 5000 = 5024"
  by (simp_all add: adjust_size_def DSIZE_def OVERHEAD_def)

lemma mm_malloc_head:
  assumes "sz \<noteq> 0" "HEAD s \<noteq> NULL" "adjust_size sz \<le> GET_SIZE s (HDRP (HEAD s))"
  shows "mm_malloc sz s = Some (HEAD s, place (HEAD s) (adjust_size sz) s)"
  using assms by (simp add: mm_malloc_def find_fit_def find_fit_from_hit)

lemma heap_a_eq:
  "heap_a =
     \<lparr>mem = (\<lambda>_. 0)
        (4104 := 17, 4112 := 17, 8216 := 1, 4128 := 0, 4136 := 0, 8208 := 3968,
         4248 := 3968, 4256 := 0, 4264 := 0, 4096 := 4256, 4120 := 129, 4240 := 129),
      mem_brk = 8224, mem_max_addr = 1052672, grow_calls = 2, heap_start = 4112\<rparr>"
  and heap_a_call: "mm_malloc 112 example_heap = Some (0x1020, heap_a)"
proof -
  have h: "HEAD example_heap = 0x1020" "GET_SIZE example_heap (HDRP 0x1020) = 4096"
    by (simp_all add: example_heap_eq init_state_def example_region_def macro_defs)
  have m: "mm_malloc 112 example_heap = Some (0x1020, place 0x1020 128 example_heap)"
    using mm_malloc_head [of 112 example_heap] h by (simp add: adjust_examples NULL_def)
  show "heap_a =
     \<lparr>mem = (\<lambda>_. 0)
        (4104 := 17, 4112 := 17, 8216 := 1, 4128 := 0, 4136 := 0, 8208 := 3968,
         4248 := 3968, 4256 := 0, 4264 := 0, 4096 := 4256, 4120 := 129, 4240 := 129),
      mem_brk = 8224, mem_max_addr = 1052672, grow_calls = 2, heap_start = 4112\<rparr>"
    unfolding heap_a_def m by (simp add: example_heap_eq init_state_def example_region_def op_defs macro_defs)
  show "mm_malloc 112 example_heap = Some (0x1020, heap_a)" by (simp add: heap_a_def m)
qed

lemma heap_b_eq:
  "heap_b =
     \<lparr>mem = (\<lambda>_. 0)
        (4104 := 17, 4112 := 17, 8216 := 1, 4128 := 0, 4136 := 0, 4256 := 0,
         4264 := 0, 4120 := 129, 4240 := 129, 8208 := 3936, 4280 := 3936, 4288 := 0,
         4296 := 0, 4096 := 4288, 4248 := 33, 4272 := 33),
      mem_brk = 8224, mem_max_addr = 1052672, grow_calls = 2, heap_start = 4112\<rparr>"
  and heap_b_call: "mm_malloc 16 heap_a = Some (0x10a0, heap_b)"
proof -
  have h: "HEAD heap_a = 0x10a0" "GET_SIZE heap_a (HDRP 0x10a0) = 3968"
    by (simp_all add: heap_a_eq macro_defs)
  have m: "mm_malloc 16 heap_a = Some (0x10a0, place 0x10a0 32 heap_a)"
    using mm_malloc_head [of 16 heap_a] h by (simp add: adjust_examples NULL_def)
  show "heap_b =
     \<lparr>mem = (\<lambda>_. 0)
        (4104 := 17, 4112 := 17, 8216 := 1, 4128 := 0, 4136 := 0, 4256 := 0,
         4264 := 0, 4120 := 129, 4240 := 129, 8208 := 3936, 4280 := 3936, 4288 := 0,
         4296 := 0, 4096 := 4288, 4248 := 33, 4272 := 33),
      mem_brk = 8224, mem_max_addr = 1052672, grow_calls = 2, heap_start = 4112\<rparr>"
    unfolding heap_b_def m by (simp add: heap_a_eq op_defs macro_defs)
  show "mm_malloc 16 heap_a = Some (0x10a0, heap_b)" by (simp add: heap_b_def m)
qed

lemma heap_c_eq:
  "heap_c =
     \<lparr>mem = (\<lambda>_. 0)
        (4104 := 17, 4112 := 17, 8216 := 1, 4128 := 0, 4136 := 0, 4256 := 0,
         4264 := 0, 4120 := 129, 4240 := 129, 4288 := 0, 4296 := 0, 4248 := 33,
         4272 := 33, 8208 := 560, 7656 := 560, 7664 := 0, 7672 := 0, 4096 := 7664,
         4280 := 3377, 7648 := 3377),
      mem_brk = 8224, mem_max_addr = 1052672, grow_calls = 2, heap_start = 4112\<rparr>"
  and heap_c_call: "mm_malloc 3360 heap_b = Some (0x10c0, heap_c)"
proof -
  have h: "HEAD heap_b = 0x10c0" "GET_SIZE heap_b (HDRP 0x10c0) = 3936"
    by (simp_all add: heap_b_eq macro_defs)
  have m: "mm_malloc 3360 heap_b = Some (0x10c0, place 0x10c0 3376 heap_b)"
    using mm_malloc_head [of 3360 heap_b] h by (simp add: adjust_examples NULL_def)
  show "heap_c =
     \<lparr>mem = (\<lambda>_. 0)
        (4104 := 17, 4112 := 17, 8216 := 1, 4128 := 0, 4136 := 0, 4256 := 0,
         4264 := 0, 4120 := 129, 4240 := 129, 4288 := 0, 4296 := 0, 4248 := 33,
         4272 := 33, 8208 := 560, 7656 := 560, 7664 := 0, 7672 := 0, 4096 := 7664,
         4280 := 3377, 7648 := 3377),
      mem_brk = 8224, mem_max_addr = 1052672, grow_calls = 2, heap_start = 4112\<rparr>"
    unfolding heap_c_def m by (simp add: heap_b_eq op_defs macro_defs)
  show "mm_malloc 3360 heap_b = Some (0x10c0, heap_c)" by (simp add: heap_c_def m)
qed

lemma heap_d_eq:
  "heap_d =
     \<lparr>mem = (\<lambda>_. 0)
        (4104 := 17, 4112 := 17, 8216 := 1, 4128 := 0, 4136 := 0, 4256 := 0,
         4264 := 0, 4120 := 129, 4240 := 129, 4288 := 0, 4296 := 0, 4248 := 33,
         4272 := 33, 7664 := 0, 7672 := 0, 4280 := 3377, 7648 := 3377, 8208 := 528,
         7688 := 528, 7696 := 0, 7704 := 0, 4096 := 7696, 7656 := 33, 7680 := 33),
      mem_brk = 8224, mem_max_addr = 1052672, grow_calls = 2, heap_start = 4112\<rparr>"
  and heap_d_call: "mm_malloc 16 heap_c = Some (0x1df0, heap_d)"
proof -
  have h: "HEAD heap_c = 0x1df0" "GET_SIZE heap_c (HDRP 0x1df0) = 560"
    by (simp_all add: heap_c_eq macro_defs)
  have m: "mm_malloc 16 heap_c = Some (0x1df0, place 0x1df0 32 heap_c)"
    using mm_malloc_head [of 16 heap_c] h by (simp add: adjust_examples NULL_def)
  show "heap_d =
     \<lparr>mem = (\<lambda>_. 0)
        (4104 := 17, 4112 := 17, 8216 := 1, 4128 := 0, 4136 := 0, 4256 := 0,
         4264 := 0, 4120 := 129, 4240 := 129, 4288 := 0, 4296 := 0, 4248 := 33,
         4272 := 33, 7664 := 0, 7672 := 0, 4280 := 3377, 7648 := 3377, 8208 := 528,
         7688 := 528, 7696 := 0, 7704 := 0, 4096 := 7696, 7656 := 33, 7680 := 33),
      mem_brk = 8224, mem_max_addr = 1052672, grow_calls = 2, heap_start = 4112\<rparr>"
    unfolding heap_d_def m by (simp add: heap_c_eq op_defs macro_defs)
  show "mm_malloc 16 heap_c = Some (0x1df0, heap_d)" by (simp add: heap_d_def m)
qed

lemma heap_e_eq:
  "heap_e =
     \<lparr>mem = (\<lambda>_. 0)
        (4104 := 17, 4112 := 17, 8216 := 1, 4128 := 0, 4136 := 0, 4256 := 0,
         4264 := 0, 4120 := 129, 4240 := 129, 4248 := 33, 4272 := 33, 7664 := 0,
         7672 := 0, 8208 := 528, 7688 := 528, 7696 := 0, 7656 := 33, 7680 := 33,
         4280 := 3376, 7648 := 3376, 7704 := 4288, 4288 := 7696, 4296 := 0,
         4096 := 4288),
      mem_brk = 8224, mem_max_addr = 1052672, grow_calls = 2, heap_start = 4112\<rparr>"
  unfolding heap_e_def by (simp add: heap_d_eq op_defs macro_defs)

lemma fit_heap_eq:
  "fit_heap =
     \<lparr>mem = (\<lambda>_. 0)
        (4104 := 17, 4112 := 17, 8216 := 1, 4256 := 0, 4264 := 0, 4248 := 33,
         4272 := 33, 7664 := 0, 7672 := 0, 8208 := 528, 7688 := 528, 7696 := 0,
         7656 := 33, 7680 := 33, 4280 := 3376, 7648 := 3376, 7704 := 4288,
         4288 := 7696, 4120 := 128, 4240 := 128, 4296 := 4128, 4128 := 4288,
         4136 := 0, 4096 := 4128),
      mem_brk = 8224, mem_max_addr = 1052672, grow_calls = 2, heap_start = 4112\<rparr>"
  unfolding fit_heap_def by (simp add: heap_e_eq op_defs macro_defs)

lemma fit_heap_list:
  "chain (mem fit_heap) (HEAD fit_heap) [0x1020, 0x10c0, 0x1e10]"
  "GET_SIZE fit_heap (HDRP 0x1020) = 128" "GET_SIZE fit_heap (HDRP 0x10c0) = 3376"
  "GET_SIZE fit_heap (HDRP 0x1e10) = 528"
  by (simp_all add: fit_heap_eq macro_defs)

lemma fit_heap_extend:
  "extend_heap 628 fit_heap = (0x1e10, grown_heap)"
  "grow_calls grown_heap = Suc (grow_calls fit_heap)"
  "mem_brk grown_heap = mem_brk fit_heap + 5024"
proof -
  have a: "extend_heap 628 fit_heap = coalesce 0x2020
     \<lparr>mem = (\<lambda>_. 0)
        (4104 := 17, 4112 := 17, 4256 := 0, 4264 := 0, 4248 := 33, 4272 := 33,
         7664 := 0, 7672 := 0, 8208 := 528, 7688 := 528, 7696 := 0, 7656 := 33,
         7680 := 33, 4280 := 3376, 7648 := 3376, 7704 := 4288, 4288 := 7696,
         4120 := 128, 4240 := 128, 4296 := 4128, 4128 := 4288, 4136 := 0,
         4096 := 4128, 8216 := 5024, 13232 := 5024, 13240 := 1),
      mem_brk = 13248, mem_max_addr = 1052672, grow_calls = 3, heap_start = 4112\<rparr>"
    by (simp add: extend_heap_def mem_sbrk_def fit_heap_eq macro_defs Let_def)
  have b: "extend_heap 628 fit_heap = (0x1e10,
     \<lparr>mem = (\<lambda>_. 0)
        (4104 := 17, 4112 := 17, 4256 := 0, 4264 := 0, 4248 := 33, 4272 := 33,
         7664 := 0, 7672 := 0, 8208 := 528, 7696 := 0, 7656 := 33, 7680 := 33,
         4280 := 3376, 7648 := 3376, 7704 := 4288, 4288 := 7696, 4120 := 128,
         4240 := 128, 4296 := 4128, 4128 := 4288, 4136 := 0, 4096 := 4128,
         8216 := 5024, 13240 := 1, 7688 := 5552, 13232 := 5552),
      mem_brk = 13248, mem_max_addr = 1052672, grow_calls = 3, heap_start = 4112\<rparr>)"
    unfolding a by (simp add: op_defs macro_defs)
  show "extend_heap 628 fit_heap = (0x1e10, grown_heap)" by (simp add: grown_heap_def b)
  show "grow_calls grown_heap = Suc (grow_calls fit_heap)"
    unfolding grown_heap_def b by (simp add: fit_heap_eq)
  show "mem_brk grown_heap = mem_brk fit_heap + 5024"
    unfolding grown_heap_def b by (simp add: fit_heap_eq)
qed

section \<open>Layout and free-list reasoning\<close>

lemma ptr_eq_iff: "j < 2 ^ 64 \<Longrightarrow> k < 2 ^ 64 \<Longrightarrow> ptr j = ptr k \<longleftrightarrow> j = k"
  by (simp add: ptr_def word_of_nat_eq_iff take_bit_nat_eq_self)

lemma ptr_unat [simp]: "ptr (unat w) = w"
  by (simp add: ptr_def)

lemma unat_ptr: "k < 2 ^ 64 \<Longrightarrow> unat (ptr k) = k"
  by (simp add: ptr_def unat_of_nat)

lemma ptr_0_iff: "k < 2 ^ 64 \<Longrightarrow> ptr k = 0 \<longleftrightarrow> k = 0"
  using ptr_eq_iff [of k 0] by (simp add: ptr_def)

lemma ptr_add: "ptr j + of_nat n = ptr (j + n)"
  by (simp add: ptr_def)

lemma ptr_add_num: "ptr j + numeral n = ptr (j + numeral n)"
  by (simp add: ptr_def)

lemma ptr_sub: "n \<le> j \<Longrightarrow> ptr j - of_nat n = ptr (j - n)"
  by (simp add: ptr_def)

lemma ptr_sub_num: "numeral n \<le> j \<Longrightarrow> ptr j - numeral n = ptr (j - numeral n)"
  using ptr_sub [of "numeral n" j] by simp

lemma mv_PUT: "j < 2 ^ 64 \<Longrightarrow> mv (PUT (ptr j) v s) = (mv s)(j := v)"
  by (auto simp: mv_def PUT_def ptr_eq_iff fun_eq_iff)

lemma mem_ptr: "k < 2 ^ 64 \<Longrightarrow> mem s (ptr k) = mv s k"
  by (simp add: mv_def)

lemma GET_ptr: "k < 2 ^ 64 \<Longrightarrow> GET s (ptr k) = mv s k"
  by (simp add: mv_def GET_def)

lemma m15: "(15::64 word) = mask 4"
  by (simp add: mask_eq_exp_minus_1)

lemma one_mask: "(1::64 word) = mask 1"
  by (simp add: mask_eq_exp_minus_1)

lemma pb_and_not: "(push_bit 4 x :: 64 word) AND NOT (mask 4) = push_bit 4 x"
  by (rule bit_eqI) (auto simp: bit_simps)

lemma pb_or1_and_not: "(push_bit 4 x OR mask 1 :: 64 word) AND NOT (mask 4) = push_bit 4 x"
  by (rule bit_eqI) (auto simp: bit_simps)

lemma pb_and_1: "(push_bit 4 x :: 64 word) AND mask 1 = 0"
  by (rule bit_eqI) (auto simp: bit_simps)

lemma pb_or1_and_1: "(push_bit 4 x OR mask 1 :: 64 word) AND mask 1 = mask 1"
  by (rule bit_eqI) (auto simp: bit_simps)

lemma of_nat_push: "16 dvd n \<Longrightarrow> (of_nat n :: 64 word) = push_bit 4 (of_nat (n div 16))"
  by (auto simp: dvd_def push_bit_eq_mult)

lemma tag_False: "tag n False = of_nat n"
  by (simp add: tag_def PACK_def)

lemma tag_True: "tag n True = PACK (of_nat n) 1"
  by (simp add: tag_def)

lemma PACK_0 [simp]: "PACK x 0 = x"
  by (simp add: PACK_def)

lemma tag_size: "16 dvd n \<Longrightarrow> tag n a AND NOT 15 = of_nat n"
  unfolding tag_def PACK_def m15
  by (cases a) (simp_all add: of_nat_push [of n] pb_and_not pb_or1_and_not [unfolded one_mask [symmetric]])

lemma tag_alloc: "16 dvd n \<Longrightarrow> tag n a AND 1 = (if a then 1 else 0)"
  unfolding tag_def PACK_def
  using pb_and_1 [of "of_nat (n div 16)"] pb_or1_and_1 [of "of_nat (n div 16)"]
  by (cases a) (simp_all add: of_nat_push [of n] one_mask [symmetric])

lemma of_nat_le_iff64: "a < 2 ^ 64 \<Longrightarrow> b < 2 ^ 64 \<Longrightarrow> (of_nat a :: 64 word) \<le> of_nat b \<longleftrightarrow> a \<le> b"
  by (simp add: word_of_nat_less_eq_iff take_bit_nat_eq_self)

lemma of_nat_less_iff64: "a < 2 ^ 64 \<Longrightarrow> b < 2 ^ 64 \<Longrightarrow> (of_nat a :: 64 word) < of_nat b \<longleftrightarrow> a < b"
  by (simp add: word_of_nat_less_iff take_bit_nat_eq_self)

lemma total_append [simp]: "total (xs @ ys) = total xs + total ys"
  by (induction xs) auto

lemma segs_append [simp]: "segs M k (xs @ ys) = (segs M k xs \<and> segs M (k + total xs) ys)"
  by (induction xs arbitrary: k) (auto simp: add.assoc)

lemma addrs_append [simp]: "addrs k (xs @ ys) = addrs k xs @ addrs (k + total xs) ys"
  by (induction xs arbitrary: k) (auto simp: add.assoc)

lemma free_addrs_append [simp]:
  "free_addrs k (xs @ ys) = free_addrs k xs @ free_addrs (k + total xs) ys"
  by (induction xs arbitrary: k) (auto simp: add.assoc)

lemma sized_append [simp]: "sized (xs @ ys) = (sized xs \<and> sized ys)"
  by (auto simp: sized_def)

lemma sized_Cons [simp]: "sized ((n, a) # bs) = (32 \<le> n \<and> 16 dvd n \<and> sized bs)"
  by (auto simp: sized_def)

lemma sized_Nil [simp]: "sized []"
  by (simp add: sized_def)

lemma free_addrs_in_addrs: "x \<in> set (free_addrs k bs) \<Longrightarrow> x \<in> set (addrs k bs)"
  by (induction bs arbitrary: k) (auto split: if_splits)

lemma free_addrs_subset: "set (free_addrs k bs) \<subseteq> set (addrs k bs)"
  using free_addrs_in_addrs by blast

lemma addrs_bounds: "sized bs \<Longrightarrow> x \<in> set (addrs k bs) \<Longrightarrow> k \<le> x \<and> x + 32 \<le> k + total bs"
  by (induction bs arbitrary: k) fastforce+

lemma addrs_split:
  "x \<in> set (addrs k bs) \<Longrightarrow> \<exists>xs n a ys. bs = xs @ (n, a) # ys \<and> x = k + total xs"
proof (induction bs arbitrary: k)
  case Nil
  then show ?case by simp
next
  case (Cons b bs)
  obtain n a where b: "b = (n, a)" by (cases b)
  show ?case
  proof (cases "x = k")
    case True
    then show ?thesis using b by (intro exI [of _ "[]"]) auto
  next
    case False
    then have "x \<in> set (addrs (k + n) bs)" using Cons.prems b by simp
    from Cons.IH [OF this] obtain xs n' a' ys where "bs = xs @ (n', a') # ys" "x = k + n + total xs"
      by blast
    then show ?thesis using b by (intro exI [of _ "(n, a) # xs"]) auto
  qed
qed

lemma addrs_apart:
  "sized bs \<Longrightarrow> x \<in> set (addrs k bs) \<Longrightarrow> y \<in> set (addrs k bs) \<Longrightarrow> x = y \<or> x + 32 \<le> y \<or> y + 32 \<le> x"
proof (induction bs arbitrary: k)
  case Nil
  then show ?case by simp
next
  case (Cons b bs)
  obtain n a where b: "b = (n, a)" by (cases b)
  have s: "sized bs" "32 \<le> n" using Cons.prems(1) b by auto
  show ?case
    using Cons.prems(2,3) Cons.IH [OF s(1), of "k + n"] addrs_bounds [OF s(1), of x "k + n"]
      addrs_bounds [OF s(1), of y "k + n"] s(2) b
    by auto
qed

lemma distinct_addrs: "sized bs \<Longrightarrow> distinct (addrs k bs)"
proof (induction bs arbitrary: k)
  case Nil
  then show ?case by simp
next
  case (Cons b bs)
  obtain n a where b: "b = (n, a)" by (cases b)
  have s: "sized bs" "32 \<le> n" using Cons.prems(1) b by auto
  show ?case using Cons.IH [OF s(1), of "k + n"] addrs_bounds [OF s(1), of k "k + n"] s(2) b by auto
qed

lemma distinct_free_addrs: "sized bs \<Longrightarrow> distinct (free_addrs k bs)"
proof (induction bs arbitrary: k)
  case Nil
  then show ?case by simp
next
  case (Cons b bs)
  obtain n a where b: "b = (n, a)" by (cases b)
  have s: "sized bs" "32 \<le> n" using Cons.prems(1) b by auto
  show ?case
    using Cons.IH [OF s(1), of "k + n"] addrs_bounds [OF s(1), of k "k + n"] s(2) b
      free_addrs_subset [of "k + n" bs]
    by auto
qed

lemma spaced_Cons:
  "spaced hp (x # xs) \<Longrightarrow> hp + 32 \<le> x \<and> x + 32 \<le> 2 ^ 64 \<and> spaced hp xs
     \<and> (\<forall>y \<in> set xs. x = y \<or> x + 32 \<le> y \<or> y + 32 \<le> x)"
  by (auto simp: spaced_def)

lemma spaced_mem:
  "spaced hp xs \<Longrightarrow> x \<in> set xs \<Longrightarrow> hp + 32 \<le> x \<and> x + 32 \<le> 2 ^ 64"
  by (auto simp: spaced_def)

lemma spaced_apart:
  "spaced hp xs \<Longrightarrow> x \<in> set xs \<Longrightarrow> y \<in> set xs \<Longrightarrow> x = y \<or> x + 32 \<le> y \<or> y + 32 \<le> x"
  by (auto simp: spaced_def)

lemma spaced_subset: "spaced hp xs \<Longrightarrow> set ys \<subseteq> set xs \<Longrightarrow> spaced hp ys"
  by (auto simp: spaced_def subset_iff)

lemma nseg_append: "nseg M p (xs @ ys) q \<longleftrightarrow> (\<exists>r. nseg M p xs r \<and> nseg M r ys q)"
  by (induction xs arbitrary: p) auto

lemma nseg_upd: "j \<notin> set xs \<Longrightarrow> nseg (M(j := v)) p xs q = nseg M p xs q"
  by (induction xs arbitrary: p) auto

lemma prev_ok_upd: "\<forall>y \<in> set (tl xs). y + 8 \<noteq> j \<Longrightarrow> prev_ok (M(j := v)) xs = prev_ok M xs"
  by (induction M xs rule: prev_ok.induct) auto

lemma prev_ok_tl: "prev_ok M (x # xs) \<Longrightarrow> prev_ok M xs"
  by (cases xs) auto

lemma macro_ptr:
  "8 \<le> k \<Longrightarrow> HDRP (ptr k) = ptr (k - 8)"
  "PREV_FREE_BLKP_POS (ptr k) = ptr (k + 8)"
  "NEXT_FREE_BLKP_POS (ptr k) = ptr k"
  "k < 2 ^ 64 \<Longrightarrow> NEXT_FREE_BLKP s (ptr k) = mv s k"
  "k + 8 < 2 ^ 64 \<Longrightarrow> PREV_FREE_BLKP s (ptr k) = mv s (k + 8)"
  "k < 2 ^ 64 \<Longrightarrow> GET_SIZE s (ptr k) = mv s k AND NOT 15"
  "k < 2 ^ 64 \<Longrightarrow> GET_ALLOC s (ptr k) = mv s k AND 1"
  by (simp_all add: macro_defs ptr_sub_num ptr_add_num mem_ptr)

lemma head_ptr:
  assumes "heap_start s = ptr (hp + 16)" "hp + 16 < 2 ^ 64"
  shows "HEAD s = mv s hp" "HEAD_PTR s = ptr hp"
  using assms ptr_sub [of 16 "hp + 16"]
  by (simp_all add: HEAD_def HEAD_PTR_def GET_def PSUB_def DSIZE_def mem_ptr)

lemma add_to_list_mv:
  assumes hs: "heap_start s = ptr (hp + 16)"
    and ch: "nseg (mv s) (mv s hp) fl 0"
    and sp: "spaced hp (x # fl)"
  shows "mv (add_to_list (ptr x) s) =
           (case fl of [] \<Rightarrow> mv s | y # _ \<Rightarrow> (mv s)(y + 8 := ptr x))
             (x := mv s hp, x + 8 := 0, hp := ptr x)"
proof (cases fl)
  case Nil
  then have h0: "mv s hp = 0" using ch by simp
  have b: "hp + 32 \<le> x" "x + 32 \<le> 2 ^ 64" using spaced_Cons [OF sp] by auto
  show ?thesis
    using b hs h0 Nil
    by (simp add: add_to_list_def Let_def head_ptr [where hp = hp] macro_ptr NULL_def mv_PUT)
next
  case (Cons y r)
  then have h0: "mv s hp = ptr y" using ch by simp
  have b: "hp + 32 \<le> x" "x + 32 \<le> 2 ^ 64" "hp + 32 \<le> y" "y + 32 \<le> 2 ^ 64"
    using spaced_Cons [OF sp] spaced_mem [OF sp, of y] Cons by auto
  have y0: "ptr y \<noteq> 0" using b hs by (simp add: ptr_0_iff)
  show ?thesis
    using b hs h0 y0 Cons
    by (simp add: add_to_list_def Let_def head_ptr [where hp = hp] macro_ptr NULL_def mv_PUT)
qed

lemma apart_neq:
  "x + 32 \<le> y \<or> y + 32 \<le> x \<Longrightarrow>
   x \<noteq> y \<and> x \<noteq> y + 8 \<and> x + 8 \<noteq> y \<and> y \<noteq> x \<and> y \<noteq> x + 8 \<and> y + 8 \<noteq> x"
  for x y :: nat
  by arith

lemma add_to_list_list:
  assumes hs: "heap_start s = ptr (hp + 16)"
    and ch: "nseg (mv s) (mv s hp) fl 0"
    and pv: "prev_ok (mv s) fl"
    and sp: "spaced hp (x # fl)"
    and nin: "x \<notin> set fl" and dl: "distinct fl"
    and M': "M' = mv (add_to_list (ptr x) s)"
  shows "nseg M' (M' hp) (x # fl) 0" "prev_ok M' (x # fl)"
proof -
  have b: "hp + 32 \<le> x" "x + 32 \<le> 2 ^ 64"
    and ap: "\<forall>y \<in> set fl. hp + 32 \<le> y \<and> (x + 32 \<le> y \<or> y + 32 \<le> x)"
    using spaced_Cons [OF sp] spaced_mem [OF sp] nin by auto
  note eq = add_to_list_mv [OF hs ch sp, folded M']
  show "nseg M' (M' hp) (x # fl) 0"
  proof (cases fl)
    case Nil
    then show ?thesis using ch b by (simp add: eq)
  next
    case (Cons y r)
    have yr: "y + 8 \<notin> set r" "x \<notin> set r" "x + 8 \<notin> set r" "hp \<notin> set r"
      using ap Cons spaced_apart [OF sp, of y] by fastforce+
    have "nseg (mv s) (mv s y) r 0" "mv s hp = ptr y" using ch Cons by auto
    moreover have "hp + 32 \<le> y" "x + 32 \<le> y \<or> y + 32 \<le> x" using ap Cons by auto
    moreover note apart_neq [OF this(2)]
    ultimately show ?thesis using b Cons yr by (simp add: eq nseg_upd)
  qed
  show "prev_ok M' (x # fl)"
  proof (cases fl)
    case Nil
    then show ?thesis by simp
  next
    case (Cons y r)
    have yr: "\<forall>z \<in> set r. z + 8 \<noteq> y + 8" "\<forall>z \<in> set r. z + 8 \<noteq> x"
      "\<forall>z \<in> set r. z + 8 \<noteq> x + 8" "\<forall>z \<in> set r. z + 8 \<noteq> hp"
      using ap Cons nin dl by fastforce+
    have "prev_ok (mv s) (y # r)" using pv Cons by simp
    moreover have "hp + 32 \<le> y" "x + 32 \<le> y \<or> y + 32 \<le> x" using ap Cons by auto
    moreover note apart_neq [OF this(2)]
    ultimately show ?thesis using b Cons yr by (simp add: eq prev_ok_upd)
  qed
qed

lemma spaced_plus8_notin: "spaced hp fl \<Longrightarrow> z \<in> set fl \<Longrightarrow> z + 8 \<notin> set fl"
  using spaced_apart [of hp fl z "z + 8"] by auto

lemma spaced_hp_notin: "spaced hp fl \<Longrightarrow> hp \<notin> set fl"
  using spaced_mem [of hp fl hp] by auto

lemma spaced_neq_plus8: "spaced hp fl \<Longrightarrow> w \<in> set fl \<Longrightarrow> y \<in> set fl \<Longrightarrow> y + 8 \<noteq> w"
  using spaced_apart [of hp fl w y] by auto

lemma spaced_hp_neq_plus8: "spaced hp fl \<Longrightarrow> y \<in> set fl \<Longrightarrow> y + 8 \<noteq> hp"
  using spaced_mem [of hp fl y] by auto

lemma prev_ok_append:
  "prev_ok M (xs @ ys) \<longleftrightarrow>
     prev_ok M xs \<and> prev_ok M ys \<and> (xs \<noteq> [] \<and> ys \<noteq> [] \<longrightarrow> M (hd ys + 8) = ptr (last xs))"
proof (induction xs)
  case Nil
  then show ?case by simp
next
  case (Cons x xs)
  then show ?case by (cases xs; cases ys) auto
qed

lemma prev_ok_upd_all:
  "\<forall>y \<in> set xs. y + 8 \<noteq> j \<Longrightarrow> prev_ok (M(j := v)) xs = prev_ok M xs"
  by (rule prev_ok_upd) (cases xs, auto)

lemma remove_from_list_mv:
  assumes hs: "heap_start s = ptr (hp + 16)"
    and fl: "fl = ys @ x # zs"
    and ch: "nseg (mv s) (mv s hp) fl 0"
    and pv: "prev_ok (mv s) fl"
    and sp: "spaced hp fl"
    and dl: "distinct fl"
  shows "mv (remove_from_list (ptr x) s) =
           (if ys = [] then (mv s)(hp := mv s x)
            else (case zs of [] \<Rightarrow> mv s | z # _ \<Rightarrow> (mv s)(z + 8 := ptr (last ys)))
                   (last ys := mv s x))"
proof -
  have bx: "hp + 32 \<le> x" "x + 32 \<le> 2 ^ 64" using spaced_mem [OF sp, of x] fl by auto
  have x0: "ptr x \<noteq> 0" using bx by (simp add: ptr_0_iff)
  from ch obtain r where r: "nseg (mv s) (mv s hp) ys r" "r = ptr x" "nseg (mv s) (mv s x) zs 0"
    unfolding fl nseg_append by auto
  show ?thesis
  proof (cases ys)
    case Nil
    then have "mv s hp = ptr x" using r by simp
    then show ?thesis
      using Nil bx x0 hs
      by (simp add: remove_from_list_def head_ptr [where hp = hp] macro_ptr NULL_def mv_PUT)
  next
    case (Cons y ys')
    then have hd: "mv s hp = ptr y" using r by simp
    have by0: "hp + 32 \<le> y" "y + 32 \<le> 2 ^ 64" "y \<noteq> x"
      using spaced_mem [OF sp, of y] fl dl Cons by auto
    have ne: "ptr x \<noteq> ptr y" using bx by0 by (simp add: ptr_eq_iff)
    have ysne: "ys \<noteq> []" using Cons by simp
    define w where "w = last ys"
    have wfl: "w \<in> set fl" "w \<noteq> x" using ysne fl dl by (auto simp: w_def)
    have bw: "hp + 32 \<le> w" "w + 32 \<le> 2 ^ 64" using spaced_mem [OF sp wfl(1)] by auto
    have px: "mv s (x + 8) = ptr w"
      using pv ysne unfolding fl w_def by (simp add: prev_ok_append)
    show ?thesis
    proof (cases zs)
      case Nil
      then have "mv s x = 0" using r by simp
      then show ?thesis
        using Nil bx x0 hs hd ne px bw ysne
        by (simp add: remove_from_list_def head_ptr [where hp = hp] macro_ptr NULL_def mv_PUT
            Let_def w_def)
    next
      case (Cons z zs')
      then have nx: "mv s x = ptr z" using r by simp
      have bz: "hp + 32 \<le> z" "z + 32 \<le> 2 ^ 64" "z \<noteq> x"
        using spaced_mem [OF sp, of z] fl dl Cons by auto
      have z0: "ptr z \<noteq> 0" using bz by (simp add: ptr_0_iff)
      have d: "z + 8 \<noteq> x" "z + 8 \<noteq> x + 8" "z + 8 \<noteq> hp"
        using spaced_apart [OF sp, of x z] fl Cons bz by auto
      show ?thesis
        using Cons bx x0 hs hd ne px bw ysne nx bz z0 d
        by (simp add: remove_from_list_def head_ptr [where hp = hp] macro_ptr NULL_def mv_PUT
            Let_def w_def)
    qed
  qed
qed

lemma remove_from_list_list:
  assumes hs: "heap_start s = ptr (hp + 16)"
    and fl: "fl = ys @ x # zs"
    and ch: "nseg (mv s) (mv s hp) fl 0"
    and pv: "prev_ok (mv s) fl"
    and sp: "spaced hp fl"
    and dl: "distinct fl"
    and M': "M' = mv (remove_from_list (ptr x) s)"
  shows "nseg M' (M' hp) (ys @ zs) 0" "prev_ok M' (ys @ zs)"
proof -
  note eq = remove_from_list_mv [OF hs fl ch pv sp dl, folded M']
  from ch obtain r where r: "nseg (mv s) (mv s hp) ys r" "r = ptr x" "nseg (mv s) (mv s x) zs 0"
    unfolding fl nseg_append by auto
  have pvs: "prev_ok (mv s) ys" "prev_ok (mv s) zs"
    using pv unfolding fl by (auto simp: prev_ok_append dest: prev_ok_tl)
  have hpn: "hp \<notin> set fl" by (rule spaced_hp_notin [OF sp])
  have hp8: "\<forall>y \<in> set fl. y + 8 \<noteq> hp" using spaced_hp_neq_plus8 [OF sp] by blast
  have "nseg M' (M' hp) (ys @ zs) 0 \<and> prev_ok M' (ys @ zs)"
  proof (cases "ys = []")
    case True
    have "prev_ok (M(hp := v)) zs = prev_ok M zs" for M v
      using hp8 fl by (intro prev_ok_upd_all) auto
    then show ?thesis using True r pvs hpn fl by (simp add: eq nseg_upd)
  next
    case False
    define w where "w = last ys"
    obtain ys' where ys: "ys = ys' @ [w]" using False by (metis w_def append_butlast_last_id)
    have wfl: "w \<in> set fl" using fl ys by simp
    have r': "nseg (mv s) (mv s hp) ys' (ptr w)"
      using r unfolding ys nseg_append by auto
    have wn: "w \<notin> set ys'" "w \<notin> set zs" "w \<noteq> hp" using dl hpn unfolding fl ys by auto
    have pw: "\<forall>y \<in> set fl. y + 8 \<noteq> w" using spaced_neq_plus8 [OF sp wfl] by blast
    have pw1: "prev_ok (M(w := v)) ys = prev_ok M ys" for M v
      using pw fl by (intro prev_ok_upd_all) auto
    have pw2: "prev_ok (M(w := v)) zs = prev_ok M zs" for M v
      using pw fl by (intro prev_ok_upd_all) auto
    show ?thesis
    proof (cases zs)
      case Nil
      then show ?thesis
        using False r r' wn pvs pw1
        by (simp add: eq w_def [symmetric] ys nseg_append nseg_upd)
    next
      case (Cons z zs')
      have zfl: "z \<in> set fl" using fl Cons by simp
      have zn: "z + 8 \<notin> set fl" "z + 8 \<noteq> hp" "z + 8 \<noteq> w"
        using spaced_plus8_notin [OF sp zfl] spaced_hp_neq_plus8 [OF sp zfl] pw zfl by auto
      have zd: "z \<notin> set ys" "z \<notin> set zs'" using dl unfolding fl Cons by auto
      have p1: "prev_ok (M(z + 8 := v)) ys = prev_ok M ys" for M v
        using zd by (intro prev_ok_upd_all) auto
      have p2: "prev_ok (M(z + 8 := v)) (z # zs') = prev_ok M (z # zs')" for M v
        using zd by (intro prev_ok_upd) auto
      have n1: "nseg (M(z + 8 := v, w := v')) p ys' q = nseg M p ys' q" for M v v' p q
        using zn wn fl ys by (simp add: nseg_upd)
      have n2: "nseg (M(z + 8 := v, w := v')) p zs' q = nseg M p zs' q" for M v v' p q
        using zn wn fl Cons by (simp add: nseg_upd)
      have mx: "mv s x = ptr z" "nseg (mv s) (mv s z) zs' 0" using r Cons by auto
      have "nseg M' (M' hp) (ys' @ w # z # zs') 0"
        using False Cons r' wn zn mx zd
        by (simp add: eq w_def [symmetric] n1 n2 nseg_append)
      moreover have "prev_ok M' (ys @ z # zs')"
        using False Cons pvs zn wn
        by (simp add: eq w_def [symmetric] prev_ok_append [of _ ys] p1 p2 pw1 pw2 [unfolded Cons])
      ultimately show ?thesis by (simp add: ys Cons)
    qed
  qed
  then show "nseg M' (M' hp) (ys @ zs) 0" "prev_ok M' (ys @ zs)" by auto
qed

lemma tags_append [simp]: "tags k (xs @ ys) = tags k xs @ tags (k + total xs) ys"
  by (induction xs arbitrary: k) (auto simp: add.assoc)

lemma segs_upd: "j \<notin> set (tags k bs) \<Longrightarrow> segs (M(j := v)) k bs = segs M k bs"
  by (induction bs arbitrary: k) auto

lemma tags_bounds:
  "sized bs \<Longrightarrow> 8 \<le> k \<Longrightarrow> j \<in> set (tags k bs) \<Longrightarrow> k \<le> j + 8 \<and> j + 16 \<le> k + total bs"
proof (induction bs arbitrary: k)
  case Nil
  then show ?case by simp
next
  case (Cons b bs)
  obtain n a where b: "b = (n, a)" by (cases b)
  have s: "sized bs" "32 \<le> n" using Cons.prems(1) b by auto
  show ?case
    using Cons.prems(2,3) Cons.IH [OF s(1), of "k + n"] s(2) b by auto
qed

lemma distinct_tags: "sized bs \<Longrightarrow> 8 \<le> k \<Longrightarrow> distinct (tags k bs)"
proof (induction bs arbitrary: k)
  case Nil
  then show ?case by simp
next
  case (Cons b bs)
  obtain n a where b: "b = (n, a)" by (cases b)
  have s: "sized bs" "32 \<le> n" using Cons.prems(1) b by auto
  show ?case
    using Cons.prems(2) Cons.IH [OF s(1), of "k + n"] s(2) b
      tags_bounds [OF s(1), of "k + n" "k - 8"] tags_bounds [OF s(1), of "k + n" "k + n - 16"]
    by auto
qed

lemma link_not_tag:
  "sized bs \<Longrightarrow> 8 \<le> k \<Longrightarrow> u \<in> set (addrs k bs) \<Longrightarrow>
   u \<notin> set (tags k bs) \<and> u + 8 \<notin> set (tags k bs)"
proof (induction bs arbitrary: k)
  case Nil
  then show ?case by simp
next
  case (Cons b bs)
  obtain n a where b: "b = (n, a)" by (cases b)
  have s: "sized bs" "32 \<le> n" using Cons.prems(1) b by auto
  show ?case
  proof (cases "u = k")
    case True
    then show ?thesis
      using s(2) b Cons.prems(2)
        tags_bounds [OF s(1), of "k + n" k] tags_bounds [OF s(1), of "k + n" "k + 8"]
      by auto
  next
    case False
    then have u: "u \<in> set (addrs (k + n) bs)" using Cons.prems(3) b by simp
    show ?thesis
      using Cons.IH [OF s(1) _ u] addrs_bounds [OF s(1) u] s(2) b by auto
  qed
qed

lemma distinct_atags: "sized bs \<Longrightarrow> distinct (atags hp bs)"
  using distinct_tags [of bs "hp + 32"] tags_bounds [of bs "hp + 32"]
  by (fastforce simp: atags_def)

lemma link_not_atag:
  assumes "sized bs" "u \<in> set (addrs (hp + 32) bs)"
  shows "u \<notin> set (atags hp bs)" "u + 8 \<notin> set (atags hp bs)"
  using link_not_tag [OF assms(1) _ assms(2)] addrs_bounds [OF assms]
  by (auto simp: atags_def)

lemma hp_not_atag: "sized bs \<Longrightarrow> hp \<notin> set (atags hp bs)"
  using tags_bounds [of bs "hp + 32" hp] by (auto simp: atags_def)

lemma atags_bound: "j \<in> set (atags hp bs) \<Longrightarrow> sized bs \<Longrightarrow> j + 8 \<le> hp + 32 + total bs"
  using tags_bounds [of bs "hp + 32" j] by (auto simp: atags_def)

lemma lay_PUT:
  assumes "lay s hp bs" "j \<notin> set (atags hp bs)" "j < 2 ^ 64"
  shows "lay (PUT (ptr j) v s) hp bs"
  using assms by (auto simp: lay_def atags_def mv_PUT segs_upd)

lemma lst_PUT:
  assumes "lst s hp fl" "j \<noteq> hp" "j \<notin> set fl" "\<forall>u \<in> set fl. u + 8 \<noteq> j" "j < 2 ^ 64"
  shows "lst (PUT (ptr j) v s) hp fl"
  using assms by (auto simp: lst_def mv_PUT nseg_upd prev_ok_upd_all)

lemma lay_bound: "lay s hp bs \<Longrightarrow> hp + 32 + total bs < 2 ^ 64"
  using unsigned_less [of "mem_brk s", where 'a = nat] by (simp add: lay_def)

lemma lay_spaced: 
  assumes "lay s hp bs"
  shows "spaced hp (addrs (hp + 32) bs)"
proof -
  have s: "sized bs" using assms by (simp add: lay_def)
  show ?thesis
    unfolding spaced_def
    using addrs_bounds [OF s, of _ "hp + 32"] addrs_apart [OF s, of _ "hp + 32"] lay_bound [OF assms]
    by fastforce
qed

lemma links_Cons: "links (x # fl) = {x, x + 8} \<union> links fl"
  by (auto simp: links_def)

lemma links_mono: "set fl \<subseteq> set fl' \<Longrightarrow> links fl \<subseteq> links fl'"
  by (auto simp: links_def)

lemma lst_PUT_links:
  assumes "lst s hp fl" "j \<noteq> hp" "j \<notin> links fl" "j < 2 ^ 64"
  shows "lst (PUT (ptr j) v s) hp fl"
  using assms by (intro lst_PUT) (auto simp: links_def)

lemma atag_not_link:
  assumes "sized bs" "set fl \<subseteq> set (addrs (hp + 32) bs)" "j \<in> set (atags hp bs)"
  shows "j \<notin> links fl" "j \<noteq> hp"
  using link_not_atag [OF assms(1), of _ hp] assms(2,3) hp_not_atag [OF assms(1), of hp]
  by (auto simp: links_def)

lemma range_not_link:
  assumes "\<forall>u \<in> set fl. u + 32 \<le> K \<or> K + n \<le> u" "K \<le> j + 8" "j + 16 \<le> K + n"
  shows "j \<notin> links fl"
  using assms by (fastforce simp: links_def)

lemma remove_frame:
  assumes hs: "heap_start s = ptr (hp + 16)"
    and l: "lst s hp fl" and sp: "spaced hp fl" and x: "x \<in> set fl"
    and j: "j \<noteq> hp" "j \<notin> links fl"
  shows "mv (remove_from_list (ptr x) s) j = mv s j"
proof -
  from split_list [OF x] obtain ys zs where fl: "fl = ys @ x # zs" by blast
  have l': "nseg (mv s) (mv s hp) fl 0" "prev_ok (mv s) fl" "distinct fl"
    using l by (auto simp: lst_def)
  have "ys \<noteq> [] \<Longrightarrow> last ys \<in> set fl" using fl by auto
  moreover have "zs \<noteq> [] \<Longrightarrow> hd zs \<in> set fl" using fl by auto
  ultimately show ?thesis
    using j unfolding remove_from_list_mv [OF hs fl l' (1,2) sp l' (3)]
    by (cases zs) (auto simp: links_def)
qed

lemma remove_lst:
  assumes hs: "heap_start s = ptr (hp + 16)"
    and l: "lst s hp fl" and sp: "spaced hp fl" and x: "x \<in> set fl"
  shows "lst (remove_from_list (ptr x) s) hp (remove1 x fl)"
proof -
  from split_list [OF x] obtain ys zs where fl: "fl = ys @ x # zs" by blast
  have l': "nseg (mv s) (mv s hp) fl 0" "prev_ok (mv s) fl" "distinct fl"
    using l by (auto simp: lst_def)
  have r: "remove1 x fl = ys @ zs" using l'(3) unfolding fl by (simp add: remove1_append)
  show ?thesis
    unfolding lst_def r
    using remove_from_list_list [OF hs fl l' (1,2) sp l' (3) refl] l'(3) fl by auto
qed

lemma add_frame:
  assumes hs: "heap_start s = ptr (hp + 16)"
    and l: "lst s hp fl" and sp: "spaced hp (x # fl)"
    and j: "j \<noteq> hp" "j \<notin> links (x # fl)"
  shows "mv (add_to_list (ptr x) s) j = mv s j"
proof -
  have l': "nseg (mv s) (mv s hp) fl 0" using l by (auto simp: lst_def)
  show ?thesis
    using j unfolding add_to_list_mv [OF hs l' sp]
    by (cases fl) (auto simp: links_def)
qed

lemma add_lst:
  assumes hs: "heap_start s = ptr (hp + 16)"
    and l: "lst s hp fl" and sp: "spaced hp (x # fl)" and x: "x \<notin> set fl"
  shows "lst (add_to_list (ptr x) s) hp (x # fl)"
proof -
  have l': "nseg (mv s) (mv s hp) fl 0" "prev_ok (mv s) fl" "distinct fl"
    using l by (auto simp: lst_def)
  show ?thesis
    unfolding lst_def
    using add_to_list_list [OF hs l' (1,2) sp x l' (3) refl] l'(3) x by auto
qed

lemma segs_cong:
  "(\<And>j. j \<in> set (tags k bs) \<Longrightarrow> M' j = M j) \<Longrightarrow> segs M' k bs = segs M k bs"
  by (induction bs arbitrary: k) auto

lemma lay_replace:
  assumes l: "lay s hp (xs @ old @ ys)"
    and K: "K = hp + 32 + total xs"
    and t: "total new = total old" and sz: "sized new"
    and f: "heap_start s' = heap_start s" "mem_brk s' = mem_brk s" "mem_max_addr s' = mem_max_addr s"
    and fr: "\<And>j. j \<in> set (atags hp (xs @ old @ ys)) \<Longrightarrow> j \<notin> set (tags K old) \<Longrightarrow> mv s' j = mv s j"
    and new: "segs (mv s') K new"
  shows "lay s' hp (xs @ new @ ys)"
proof -
  have so: "sized (xs @ old @ ys)" using l by (simp add: lay_def)
  have d: "distinct (atags hp (xs @ old @ ys))" by (rule distinct_atags [OF so])
  have 1: "segs (mv s') (hp + 32) xs = segs (mv s) (hp + 32) xs"
    using d by (intro segs_cong fr) (auto simp: atags_def K)
  have 2: "segs (mv s') (hp + 32 + total xs + total old) ys
           = segs (mv s) (hp + 32 + total xs + total old) ys"
    using d by (intro segs_cong fr) (auto simp: atags_def K add.assoc)
  have 3: "mv s' (hp + 8) = mv s (hp + 8)" "mv s' (hp + 16) = mv s (hp + 16)"
    "mv s' (hp + 32 + total (xs @ old @ ys) - 8) = mv s (hp + 32 + total (xs @ old @ ys) - 8)"
    using d by (intro fr; auto simp: atags_def K)+
  show ?thesis
    using l 1 2 3 new sz f t by (simp add: lay_def K add.assoc)
qed

lemma ptr_add_sub16: "16 \<le> n \<Longrightarrow> ptr K + (of_nat n - 16) = ptr (K + n - 16)"
  using ptr_add [of K "n - 16"] by (simp add: of_nat_diff)

lemma ptr_add_sub8: "8 \<le> n \<Longrightarrow> ptr K + (of_nat n - 8) = ptr (K + n - 8)"
  using ptr_add [of K "n - 8"] by (simp add: of_nat_diff)

lemma word32_less: "m < 2 ^ 64 \<Longrightarrow> (of_nat m :: 64 word) < 32 \<longleftrightarrow> m < 32"
  using of_nat_less_iff64 [of m 32] by simp

lemma size_simps:
  "16 dvd n \<Longrightarrow> tag n a AND - 16 = of_nat n"
  "16 dvd n \<Longrightarrow> (of_nat n :: 64 word) AND - 16 = of_nat n"
  "16 dvd n \<Longrightarrow> PACK (of_nat n) 1 AND - 16 = of_nat n"
  using tag_size [of n a] tag_size [of n False] tag_size [of n True]
  by (simp_all add: tag_False tag_True)

lemma alloc_simps:
  "16 dvd n \<Longrightarrow> tag n a AND 1 = (if a then 1 else 0)"
  "16 dvd n \<Longrightarrow> (of_nat n :: 64 word) AND 1 = 0"
  "16 dvd n \<Longrightarrow> PACK (of_nat n) 1 AND 1 = 1"
  using tag_alloc [of n a] tag_alloc [of n False] tag_alloc [of n True]
  by (simp_all add: tag_False tag_True)

lemma lay_block:
  assumes "lay s hp (xs @ (n, a) # ys)" "K = hp + 32 + total xs"
  shows "mv s (K - 8) = tag n a" "mv s (K + n - 16) = tag n a" "32 \<le> n" "16 dvd n"
    "hp + 32 \<le> K" "K + n \<le> hp + 32 + total (xs @ (n, a) # ys)" "K + n < 2 ^ 64"
    "heap_start s = ptr (hp + 16)" "sized (xs @ (n, a) # ys)"
  using assms lay_bound [OF assms(1)] by (auto simp: lay_def)

lemma in_atags_block:
  "K = hp + 32 + total xs \<Longrightarrow> K - 8 \<in> set (atags hp (xs @ (n, a) # ys))"
  "K = hp + 32 + total xs \<Longrightarrow> K + n - 16 \<in> set (atags hp (xs @ (n, a) # ys))"
  by (auto simp: atags_def)

lemma addrs_cases:
  assumes "sized (xs @ (n, a) # ys)" "u \<in> set (addrs k (xs @ (n, a) # ys))" "K = k + total xs"
  shows "u + 32 \<le> K \<or> u = K \<or> K + n \<le> u"
  using assms addrs_bounds [of xs u k] addrs_bounds [of ys u "k + total xs + n"]
  by (auto simp: add.assoc)

lemma place_eq_nosplit:
  assumes l: "lay s hp (xs @ (n, False) # ys)" and ls: "lst s hp fl"
    and sub: "set fl \<subseteq> set (addrs (hp + 32) (xs @ (n, False) # ys))"
    and K: "K = hp + 32 + total xs" and Kfl: "K \<in> set fl"
    and A: "n = A + d" "d < 32"
  shows "place (ptr K) (of_nat A) s =
           PUT (ptr (K + n - 16)) (tag n True)
             (PUT (ptr (K - 8)) (tag n True) (remove_from_list (ptr K) s))"
proof -
  note b = lay_block [OF l K]
  have sp: "spaced hp fl" by (rule spaced_subset [OF lay_spaced [OF l] sub])
  have h1: "mv (remove_from_list (ptr K) s) (K - 8) = tag n False"
    using remove_frame [OF b(8) ls sp Kfl, of "K - 8"]
      atag_not_link [OF b(9) sub in_atags_block(1) [OF K]] b(1) by simp
  have ns: "(of_nat n :: 64 word) - of_nat A = of_nat d" using A by simp
  have lt: "(of_nat d :: 64 word) < 32" using A b by (simp add: word32_less)
  show ?thesis
    using b(1-8) h1 lt
    by (simp add: place_def Let_def macro_ptr FTRP_def PADD_def DSIZE_def OVERHEAD_def
        size_simps ns mv_PUT ptr_add_sub16 tag_True tag_False)
qed

lemma place_eq_split:
  assumes l: "lay s hp (xs @ (n, False) # ys)" and ls: "lst s hp fl"
    and sub: "set fl \<subseteq> set (addrs (hp + 32) (xs @ (n, False) # ys))"
    and K: "K = hp + 32 + total xs" and Kfl: "K \<in> set fl"
    and A: "n = A + d" "32 \<le> d" "16 \<le> A" "16 dvd A"
  shows "place (ptr K) (of_nat A) s =
           PUT (ptr (K + A - 16)) (tag A True)
             (PUT (ptr (K - 8)) (tag A True)
               (add_to_list (ptr (K + A))
                 (PUT (ptr (K + A - 8)) (tag d False)
                   (PUT (ptr (K + n - 16)) (tag d False) (remove_from_list (ptr K) s)))))"
proof -
  note b = lay_block [OF l K]
  have sp: "spaced hp fl" by (rule spaced_subset [OF lay_spaced [OF l] sub])
  have h1: "mv (remove_from_list (ptr K) s) (K - 8) = tag n False"
    using remove_frame [OF b(8) ls sp Kfl, of "K - 8"]
      atag_not_link [OF b(9) sub in_atags_block(1) [OF K]] b(1) by simp
  have ns: "(of_nat n :: 64 word) - of_nat A = of_nat d" using A by simp
  have lt: "\<not> (of_nat d :: 64 word) < 32" using A b by (simp add: word32_less)
  have KA: "K + A < 2 ^ 64" using b A by simp
  show ?thesis
    using b(1-8) h1 lt A(2-4) KA
    by (simp add: place_def Let_def macro_ptr FTRP_def PADD_def DSIZE_def OVERHEAD_def WSIZE_def
        size_simps ns mv_PUT ptr_add_sub16 ptr_add_sub8 ptr_add tag_True tag_False)
qed

lemma atags_cases:
  assumes "sized (xs @ (n, a) # ys)" "j \<in> set (atags hp (xs @ (n, a) # ys))"
    "K = hp + 32 + total xs"
  shows "j + 8 \<le> K \<or> K + n \<le> j + 16"
  using assms tags_bounds [of xs "hp + 32" j] tags_bounds [of ys "hp + 32 + total xs + n" j]
  by (auto simp: atags_def add.assoc)

lemma spaced_ConsI:
  assumes "spaced hp fl" "hp + 32 \<le> x" "x + 32 \<le> 2 ^ 64"
    "\<forall>u \<in> set fl. x + 32 \<le> u \<or> u + 32 \<le> x"
  shows "spaced hp (x # fl)"
  using assms unfolding spaced_def by (auto; blast)

lemma remove1_others:
  assumes "sized (xs @ (n, a) # ys)" "set fl \<subseteq> set (addrs (hp + 32) (xs @ (n, a) # ys))"
    "distinct fl" "K = hp + 32 + total xs"
  shows "\<forall>u \<in> set (remove1 K fl). u + 32 \<le> K \<or> K + n \<le> u"
proof
  fix u assume u: "u \<in> set (remove1 K fl)"
  then have "u \<in> set fl" "u \<noteq> K" using assms(3) by auto
  then show "u + 32 \<le> K \<or> K + n \<le> u"
    using addrs_cases [OF assms(1) _ assms(4), of u] assms(2) by auto
qed

lemma place_nosplit_inv:
  assumes l: "lay s hp (xs @ (n, False) # ys)" and ls: "lst s hp fl"
    and sub: "set fl \<subseteq> set (addrs (hp + 32) (xs @ (n, False) # ys))"
    and K: "K = hp + 32 + total xs" and Kfl: "K \<in> set fl"
    and A: "n = A + d" "d < 32"
  shows "lay (place (ptr K) (of_nat A) s) hp (xs @ (n, True) # ys)"
    and "lst (place (ptr K) (of_nat A) s) hp (remove1 K fl)"
proof -
  note b = lay_block [OF l K]
  note eq = place_eq_nosplit [OF l ls sub K Kfl A]
  have sp: "spaced hp fl" by (rule spaced_subset [OF lay_spaced [OF l] sub])
  define s1 where "s1 = remove_from_list (ptr K) s"
  have l1: "lst s1 hp (remove1 K fl)" unfolding s1_def by (rule remove_lst [OF b(8) ls sp Kfl])
  have sub': "set (remove1 K fl) \<subseteq> set (addrs (hp + 32) (xs @ (n, False) # ys))"
    using sub set_remove1_subset [of K fl] by blast
  note nl = atag_not_link [OF b(9) sub' in_atags_block(1) [OF K]]
    atag_not_link [OF b(9) sub' in_atags_block(2) [OF K]]
  have bd: "K - 8 < 2 ^ 64" "K + n - 16 < 2 ^ 64" using b by auto
  show "lst (place (ptr K) (of_nat A) s) hp (remove1 K fl)"
    unfolding eq s1_def [symmetric]
    using nl bd by (intro lst_PUT_links l1) auto
  have fr: "mv (place (ptr K) (of_nat A) s) j = mv s j"
    if "j \<in> set (atags hp (xs @ (n, False) # ys))" "j \<notin> set (tags K [(n, False)])" for j
  proof -
    have "mv s1 j = mv s j"
      unfolding s1_def using atag_not_link [OF b(9) sub that(1)]
      by (intro remove_frame [OF b(8) ls sp Kfl]) auto
    then show ?thesis
      unfolding eq s1_def [symmetric] using that(2) bd by (simp add: mv_PUT)
  qed
  have "lay (place (ptr K) (of_nat A) s) hp (xs @ [(n, True)] @ ys)"
  proof (rule lay_replace [where old = "[(n, False)]" and s = s, OF _ K])
    show "lay s hp (xs @ [(n, False)] @ ys)" using l by simp
    show "segs (mv (place (ptr K) (of_nat A) s)) K [(n, True)]"
      unfolding eq using bd b(3) by (simp add: mv_PUT)
  qed (use b fr in \<open>auto simp: eq\<close>)
  then show "lay (place (ptr K) (of_nat A) s) hp (xs @ (n, True) # ys)" by simp
qed

lemma place_split_inv:
  assumes l: "lay s hp (xs @ (n, False) # ys)" and ls: "lst s hp fl"
    and sub: "set fl \<subseteq> set (addrs (hp + 32) (xs @ (n, False) # ys))"
    and K: "K = hp + 32 + total xs" and Kfl: "K \<in> set fl"
    and A: "n = A + d" "32 \<le> d" "32 \<le> A" "16 dvd A"
  shows "lay (place (ptr K) (of_nat A) s) hp (xs @ (A, True) # (d, False) # ys)"
    and "lst (place (ptr K) (of_nat A) s) hp ((K + A) # remove1 K fl)"
proof -
  note b = lay_block [OF l K]
  have A16: "16 \<le> A" using A by simp
  note eq = place_eq_split [OF l ls sub K Kfl A(1,2) A16 A(4)]
  have sp: "spaced hp fl" by (rule spaced_subset [OF lay_spaced [OF l] sub])
  have dl: "distinct fl" using ls by (simp add: lst_def)
  define fl' where "fl' = remove1 K fl"
  define s1 where "s1 = remove_from_list (ptr K) s"
  define s3 where "s3 = PUT (ptr (K + A - 8)) (tag d False) (PUT (ptr (K + n - 16)) (tag d False) s1)"
  define s4 where "s4 = add_to_list (ptr (K + A)) s3"
  have l1: "lst s1 hp fl'" unfolding s1_def fl'_def by (rule remove_lst [OF b(8) ls sp Kfl])
  have sub': "set fl' \<subseteq> set (addrs (hp + 32) (xs @ (n, False) # ys))"
    unfolding fl'_def using sub set_remove1_subset [of K fl] by blast
  have oth: "\<forall>u \<in> set fl'. u + 32 \<le> K \<or> K + n \<le> u"
    unfolding fl'_def by (rule remove1_others [OF b(9) sub dl K])
  have sp': "spaced hp fl'" by (rule spaced_subset [OF lay_spaced [OF l] sub'])
  have bd: "K + n < 2 ^ 64" "hp + 32 \<le> K" "n = A + d" "32 \<le> d" "32 \<le> A"
    using b A by auto
  have rn: "j \<notin> links fl'" if "K \<le> j + 8" "j + 16 \<le> K + n" for j
    by (rule range_not_link [OF oth that])
  have l3: "lst s3 hp fl'"
    unfolding s3_def using bd
    by (intro lst_PUT_links l1 rn) auto
  have sp4: "spaced hp ((K + A) # fl')"
    using oth bd by (intro spaced_ConsI sp') auto
  have nin: "K + A \<notin> set fl'" using oth bd by auto
  have hs3: "heap_start s3 = ptr (hp + 16)" by (simp add: s3_def s1_def b(8))
  have l4: "lst s4 hp ((K + A) # fl')"
    unfolding s4_def by (rule add_lst [OF hs3 l3 sp4 nin])
  have rn4: "j \<notin> links ((K + A) # fl')" if "K \<le> j + 8" "j + 16 \<le> K + n" "j \<noteq> K + A" "j \<noteq> K + A + 8" for j
    using rn [OF that(1,2)] that(3,4) by (simp add: links_Cons)
  show "lst (place (ptr K) (of_nat A) s) hp ((K + A) # remove1 K fl)"
    unfolding eq s1_def [symmetric] s3_def [symmetric] s4_def [symmetric] fl'_def [symmetric]
    using bd by (intro lst_PUT_links l4 rn4) auto
  have m3: "mv s3 = (mv s1)(K + n - 16 := tag d False, K + A - 8 := tag d False)"
    unfolding s3_def using bd by (simp add: mv_PUT)
  have m4: "mv s4 j = mv s3 j" if "j \<noteq> hp" "j \<notin> links ((K + A) # fl')" for j
    unfolding s4_def by (rule add_frame [OF hs3 l3 sp4 that])
  have m6: "mv (place (ptr K) (of_nat A) s) = (mv s4)(K - 8 := tag A True, K + A - 16 := tag A True)"
    unfolding eq s1_def [symmetric] s3_def [symmetric] s4_def [symmetric]
    using bd by (simp add: mv_PUT)
  have fr: "mv (place (ptr K) (of_nat A) s) j = mv s j"
    if "j \<in> set (atags hp (xs @ (n, False) # ys))" "j \<notin> set (tags K [(n, False)])" for j
  proof -
    note c = atags_cases [OF b(9) that(1) K]
    have 1: "mv s1 j = mv s j"
      unfolding s1_def using atag_not_link [OF b(9) sub that(1)]
      by (intro remove_frame [OF b(8) ls sp Kfl]) auto
    have 2: "mv s4 j = mv s3 j"
      using atag_not_link [OF b(9) sub' that(1)] c bd that(2)
      by (intro m4) (auto simp: links_Cons)
    show ?thesis
      unfolding m6 using that(2) bd c 1 2 by (auto simp: m3)
  qed
  have c1: "mv s4 (K + A - 8) = tag d False"
    using bd m4 [of "K + A - 8"] rn4 [of "K + A - 8"] by (simp add: m3)
  have c2: "mv s4 (K + n - 16) = tag d False"
    using bd m4 [of "K + n - 16"] rn4 [of "K + n - 16"] by (simp add: m3)
  have "lay (place (ptr K) (of_nat A) s) hp (xs @ [(A, True), (d, False)] @ ys)"
  proof (rule lay_replace [where old = "[(n, False)]" and s = s, OF _ K])
    show "lay s hp (xs @ [(n, False)] @ ys)" using l by simp
    show "segs (mv (place (ptr K) (of_nat A) s)) K [(A, True), (d, False)]"
      unfolding m6 using bd c1 c2 by (auto simp: add.assoc)
    show "sized [(A, True), (d, False)]" using bd A b by (simp add: dvd_add_right_iff)
  qed (use b fr bd in \<open>auto simp: eq\<close>)
  then show "lay (place (ptr K) (of_nat A) s) hp (xs @ (A, True) # (d, False) # ys)" by simp
qed

lemma coalesce_alt:
  "coalesce bp s =
     (let prev_free = (GET_ALLOC s (HDRP (PREV_BLKP s bp)) = 0);
          s1 = (if prev_free
                then PUT (HDRP (PREV_BLKP s bp))
                         (GET_SIZE s (HDRP (PREV_BLKP s bp)) + GET_SIZE s (HDRP bp)) s
                else s);
          cb = (if prev_free then PREV_BLKP s1 bp else bp)
      in (cb, if \<not> prev_free then add_to_list cb (merge_next cb s1) else merge_next cb s1))"
  by (simp add: coalesce_def merge_next_def Let_def)

lemma merge_next_fields [simp]:
  "grow_calls (merge_next cb s) = grow_calls s"
  "mem_brk (merge_next cb s) = mem_brk s"
  "heap_start (merge_next cb s) = heap_start s"
  "mem_max_addr (merge_next cb s) = mem_max_addr s"
  by (simp_all add: merge_next_def Let_def)

lemma next_info:
  assumes l: "lay s hp (xs @ (n, a) # ys)" and K: "K = hp + 32 + total xs"
  shows "\<exists>l an. mv s (K + n - 8) = tag l an \<and> 16 dvd l
            \<and> (if an then ys = [] \<or> (\<exists>ys'. ys = (l, True) # ys')
                else \<exists>ys'. ys = (l, False) # ys')"
proof (cases ys)
  case Nil
  have "mv s (hp + 32 + total (xs @ (n, a) # ys) - 8) = 1" using l by (simp add: lay_def)
  moreover have "hp + 32 + total (xs @ (n, a) # ys) - 8 = K + n - 8" using K Nil by simp
  ultimately have "mv s (K + n - 8) = tag 0 True" by (simp add: tag_def PACK_def)
  then show ?thesis
    using Nil by (intro exI [of _ 0] exI [of _ True]) simp
next
  case (Cons b ys')
  obtain l' an where b: "b = (l', an)" by (cases b)
  have "segs (mv s) (K + n) ((l', an) # ys')" "sized ((l', an) # ys')"
    using l K unfolding Cons b by (auto simp: lay_def add.assoc)
  then have "mv s (K + n - 8) = tag l' an" "16 dvd l'" by auto
  then show ?thesis
    unfolding Cons b by (intro exI [of _ l'] exI [of _ an]) auto
qed

lemma prev_info:
  assumes l: "lay s hp (xs @ (n, a) # ys)" and K: "K = hp + 32 + total xs"
  shows "\<exists>m ap. mv s (K - 16) = tag m ap \<and> mv s (K - m - 8) = tag m ap \<and> 16 dvd m \<and> 16 \<le> m
            \<and> hp + 16 + m \<le> K
            \<and> (if ap then xs = [] \<or> (\<exists>xs'. xs = xs' @ [(m, True)])
                else \<exists>xs'. xs = xs' @ [(m, False)])"
proof (cases xs rule: rev_cases)
  case Nil
  have t: "tag 16 True = 17" by (simp add: tag_def PACK_def)
  have "mv s (hp + 16) = 17" "mv s (hp + 8) = 17" using l by (simp_all add: lay_def)
  moreover have "K - 16 = hp + 16" "K - 16 - 8 = hp + 8" using K Nil by simp_all
  ultimately have "mv s (K - 16) = tag 16 True" "mv s (K - 16 - 8) = tag 16 True"
    unfolding t by metis+
  then show ?thesis
    using Nil K by (intro exI [of _ 16] exI [of _ True]) simp
next
  case (snoc xs' b)
  obtain m ap where b: "b = (m, ap)" by (cases b)
  have "segs (mv s) (K - m) [(m, ap)]" "sized [(m, ap)]"
    using l K unfolding snoc b by (auto simp: lay_def add.assoc)
  then have "mv s (K - m - 8) = tag m ap" "mv s (K - m + m - 16) = tag m ap" "16 dvd m" "32 \<le> m"
    by auto
  moreover have "K - m + m = K" using K snoc b by simp
  ultimately show ?thesis
    using K unfolding snoc b by (intro exI [of _ m] exI [of _ ap]) auto
qed

lemma tag_alloc_eq0: "16 dvd n \<Longrightarrow> (tag n a AND 1 = 0) = (\<not> a)"
  by (simp add: alloc_simps)

lemma lay_PUT_same: "lay s hp bs \<Longrightarrow> j < 2 ^ 64 \<Longrightarrow> mv s j = v \<Longrightarrow> lay (PUT (ptr j) v s) hp bs"
  by (simp add: lay_def mv_PUT fun_upd_idem)

lemma size_add:
  "16 dvd l \<Longrightarrow> 16 dvd c \<Longrightarrow> ((of_nat l :: 64 word) + of_nat c) AND - 16 = of_nat l + of_nat c"
  using size_simps(2) [of "l + c"] by simp

lemma ptr_add_sub16_add:
  "16 \<le> l + c \<Longrightarrow> ptr K + (of_nat l + of_nat c - 16) = ptr (K + (l + c) - 16)"
  using ptr_add_sub16 [of "l + c" K] by simp

lemma merge_next_facts:
  assumes lF: "lay (PUT (ptr (C + c - 16)) (tag c False) s) hp (xs @ (c, False) # ys)"
    and C: "C = hp + 32 + total xs"
  shows "mv s (C - 8) = tag c False" "32 \<le> c" "16 dvd c" "hp + 32 \<le> C" "C + c < 2 ^ 64"
    "heap_start s = ptr (hp + 16)" "sized (xs @ (c, False) # ys)"
    "\<And>j. j \<noteq> C + c - 16 \<Longrightarrow> mv (PUT (ptr (C + c - 16)) (tag c False) s) j = mv s j"
proof -
  note b = lay_block [OF lF C]
  show c: "32 \<le> c" "16 dvd c" "hp + 32 \<le> C" "C + c < 2 ^ 64" "sized (xs @ (c, False) # ys)"
    using b by auto
  have m: "mv (PUT (ptr (C + c - 16)) (tag c False) s) = (mv s)(C + c - 16 := tag c False)"
    using c by (simp add: mv_PUT)
  show "mv s (C - 8) = tag c False" using b(1) c unfolding m by (simp split: if_splits)
  show "heap_start s = ptr (hp + 16)" using b(8) by simp
  show "\<And>j. j \<noteq> C + c - 16 \<Longrightarrow> mv (PUT (ptr (C + c - 16)) (tag c False) s) j = mv s j"
    unfolding m by simp
qed

lemma merge_next_alloc:
  assumes lF: "lay (PUT (ptr (C + c - 16)) (tag c False) s) hp (xs @ (c, False) # ys)"
    and C: "C = hp + 32 + total xs"
    and ya: "ys = [] \<or> (\<exists>l' ys'. ys = (l', True) # ys')"
  shows "merge_next (ptr C) s = PUT (ptr (C + c - 16)) (tag c False) s"
proof -
  note f = merge_next_facts [OF lF C]
  from next_info [OF lF C] obtain l an where
    n: "mv (PUT (ptr (C + c - 16)) (tag c False) s) (C + c - 8) = tag l an" "16 dvd l"
      "if an then ys = [] \<or> (\<exists>ys'. ys = (l, True) # ys') else \<exists>ys'. ys = (l, False) # ys'"
    by blast
  have an: "an" using n(3) ya by (cases an) auto
  have n': "mv s (C + c - 8) = tag l True" using n(1) f(8) [of "C + c - 8"] f(2) an by simp
  have bd: "8 \<le> C" "C - 8 < 2 ^ 64" "8 \<le> C + c" "C + c - 8 < 2 ^ 64" using f by auto
  have nb: "NEXT_BLKP s (ptr C) = ptr (C + c)"
    using bd f by (simp add: NEXT_BLKP_def PADD_def macro_ptr size_simps ptr_add)
  have na: "GET_ALLOC s (HDRP (NEXT_BLKP s (ptr C))) \<noteq> 0"
    unfolding nb using bd n' n(2) by (simp add: macro_ptr alloc_simps)
  show ?thesis
    unfolding merge_next_def Let_def using na bd f(1,2,3)
    by (simp add: FTRP_def PADD_def DSIZE_def macro_ptr size_simps ptr_add_sub16 GET_ptr)
qed

lemma merge_next_free_eq:
  assumes lF: "lay (PUT (ptr (C + c - 16)) (tag c False) s) hp (xs @ (c, False) # (l, False) # ys')"
    and C: "C = hp + 32 + total xs"
    and ls: "lst s hp fl"
    and sub: "set fl \<subseteq> set (addrs (hp + 32) (xs @ (c, False) # (l, False) # ys'))"
    and nfl: "C + c \<in> set fl"
  shows "merge_next (ptr C) s =
           PUT (ptr (C + (l + c) - 16)) (of_nat l + of_nat c)
             (PUT (ptr (C - 8)) (of_nat l + of_nat c) (remove_from_list (ptr (C + c)) s))"
proof -
  note f = merge_next_facts [OF lF C]
  have lF': "lay (PUT (ptr (C + c - 16)) (tag c False) s) hp ((xs @ [(c, False)]) @ (l, False) # ys')"
    using lF by simp
  have C': "C + c = hp + 32 + total (xs @ [(c, False)])" using C by simp
  note b = lay_block [OF lF' C']
  have n': "mv s (C + c - 8) = tag l False" using b(1) f(8) [of "C + c - 8"] f(2) by simp
  have bd: "8 \<le> C" "C - 8 < 2 ^ 64" "8 \<le> C + c" "C + c - 8 < 2 ^ 64" "16 \<le> l + c"
    "16 dvd l" "32 \<le> l" "C + c + l < 2 ^ 64"
    using f b by auto
  have sp: "spaced hp fl" by (rule spaced_subset [OF lay_spaced [OF lF] sub])
  have nb: "NEXT_BLKP s (ptr C) = ptr (C + c)"
    using bd f by (simp add: NEXT_BLKP_def PADD_def macro_ptr size_simps ptr_add)
  have na: "GET_ALLOC s (HDRP (NEXT_BLKP s (ptr C))) = 0"
    unfolding nb using bd n' by (simp add: macro_ptr alloc_simps)
  define s' where "s' = remove_from_list (ptr (C + c)) s"
  have a1: "C - 8 \<in> set (atags hp (xs @ (c, False) # (l, False) # ys'))"
    by (rule in_atags_block(1) [OF C])
  have a2: "C + c - 8 \<in> set (atags hp ((xs @ [(c, False)]) @ (l, False) # ys'))"
    by (rule in_atags_block(1) [OF C'])
  have h1: "mv s' (C - 8) = tag c False"
    unfolding s'_def using remove_frame [OF f(6) ls sp nfl, of "C - 8"]
      atag_not_link [OF f(7) sub a1] f(1) by simp
  have h2: "mv s' (C + c - 8) = tag l False"
    unfolding s'_def using remove_frame [OF f(6) ls sp nfl, of "C + c - 8"]
      atag_not_link [OF f(7) sub] a2 n' by simp
  have nb': "NEXT_BLKP s' (ptr C) = ptr (C + c)"
    using bd f h1 by (simp add: NEXT_BLKP_def PADD_def macro_ptr size_simps ptr_add)
  show ?thesis
    unfolding merge_next_def Let_def nb s'_def [symmetric] nb'
    using na bd f(2,3) h1 h2 unfolding nb
    by (simp add: FTRP_def PADD_def DSIZE_def macro_ptr size_simps size_add ptr_add_sub16_add
        GET_ptr mv_PUT)
qed

lemma merge_next_alloc_inv:
  assumes lF: "lay (PUT (ptr (C + c - 16)) (tag c False) s) hp (xs @ (c, False) # ys)"
    and C: "C = hp + 32 + total xs"
    and ls: "lst s hp fl"
    and sub: "set fl \<subseteq> set (addrs (hp + 32) (xs @ (c, False) # ys))"
    and ya: "ys = [] \<or> (\<exists>l' ys'. ys = (l', True) # ys')"
  shows "lay (merge_next (ptr C) s) hp (xs @ (c, False) # ys)"
    and "lst (merge_next (ptr C) s) hp fl"
proof -
  note f = merge_next_facts [OF lF C]
  note eq = merge_next_alloc [OF lF C ya]
  show "lay (merge_next (ptr C) s) hp (xs @ (c, False) # ys)" unfolding eq by (rule lF)
  show "lst (merge_next (ptr C) s) hp fl"
    unfolding eq using atag_not_link [OF f(7) sub in_atags_block(2) [OF C]] f
    by (intro lst_PUT_links ls) auto
qed

lemma merge_next_free_inv:
  assumes lF: "lay (PUT (ptr (C + c - 16)) (tag c False) s) hp (xs @ (c, False) # (l, False) # ys')"
    and C: "C = hp + 32 + total xs"
    and ls: "lst s hp fl"
    and sub: "set fl \<subseteq> set (addrs (hp + 32) (xs @ (c, False) # (l, False) # ys'))"
    and nfl: "C + c \<in> set fl"
  shows "lay (merge_next (ptr C) s) hp (xs @ (l + c, False) # ys')"
    and "lst (merge_next (ptr C) s) hp (remove1 (C + c) fl)"
proof -
  note f = merge_next_facts [OF lF C]
  note eq = merge_next_free_eq [OF lF C ls sub nfl]
  let ?bs = "xs @ (c, False) # (l, False) # ys'"
  have lF': "lay (PUT (ptr (C + c - 16)) (tag c False) s) hp ((xs @ [(c, False)]) @ (l, False) # ys')"
    using lF by simp
  have C': "C + c = hp + 32 + total (xs @ [(c, False)])" using C by simp
  note b = lay_block [OF lF' C']
  have bd: "8 \<le> C" "C - 8 < 2 ^ 64" "16 dvd l" "32 \<le> l" "C + c + l < 2 ^ 64" "32 \<le> c" "16 dvd c"
    "C + (l + c) - 16 < 2 ^ 64" "C + (l + c) - 16 = C + c + l - 16"
    using f b by auto
  have sp: "spaced hp fl" by (rule spaced_subset [OF lay_spaced [OF lF] sub])
  define s' where "s' = remove_from_list (ptr (C + c)) s"
  have l1: "lst s' hp (remove1 (C + c) fl)"
    unfolding s'_def by (rule remove_lst [OF f(6) ls sp nfl])
  have sub': "set (remove1 (C + c) fl) \<subseteq> set (addrs (hp + 32) ?bs)"
    using sub set_remove1_subset [of "C + c" fl] by blast
  have a1: "C - 8 \<in> set (atags hp ?bs)" by (rule in_atags_block(1) [OF C])
  have a2: "C + c + l - 16 \<in> set (atags hp ?bs)"
    using in_atags_block(2) [OF C', of l False ys'] by simp
  show "lst (merge_next (ptr C) s) hp (remove1 (C + c) fl)"
    unfolding eq s'_def [symmetric] bd(9)
    using atag_not_link [OF f(7) sub' a1] atag_not_link [OF f(7) sub' a2] bd
    by (intro lst_PUT_links l1) auto
  have m: "mv (merge_next (ptr C) s) =
             (mv s')(C - 8 := of_nat l + of_nat c, C + c + l - 16 := of_nat l + of_nat c)"
    unfolding eq s'_def [symmetric] bd(9) using bd by (simp add: mv_PUT)
  have fr: "mv (merge_next (ptr C) s) j = mv (PUT (ptr (C + c - 16)) (tag c False) s) j"
    if "j \<in> set (atags hp (xs @ [(c, False), (l, False)] @ ys'))"
      "j \<notin> set (tags C [(c, False), (l, False)])" for j
  proof -
    have j: "j \<in> set (atags hp ?bs)" using that(1) by simp
    have "mv s' j = mv s j"
      unfolding s'_def using atag_not_link [OF f(7) sub j]
      by (intro remove_frame [OF f(6) ls sp nfl]) auto
    moreover have "j \<noteq> C - 8" "j \<noteq> C + c + l - 16" "j \<noteq> C + c - 16"
      using that(2) by (auto simp: add.assoc)
    ultimately show ?thesis unfolding m using f(8) [of j] by simp
  qed
  have "lay (merge_next (ptr C) s) hp (xs @ [(l + c, False)] @ ys')"
  proof (rule lay_replace [where old = "[(c, False), (l, False)]"
        and s = "PUT (ptr (C + c - 16)) (tag c False) s", OF _ C])
    show "lay (PUT (ptr (C + c - 16)) (tag c False) s) hp (xs @ [(c, False), (l, False)] @ ys')"
      using lF by simp
    show "segs (mv (merge_next (ptr C) s)) C [(l + c, False)]"
      unfolding m using bd by (auto simp: tag_False add.commute add.left_commute)
    show "sized [(l + c, False)]" using bd by simp
  qed (use fr in \<open>auto simp: add.commute\<close>)
  then show "lay (merge_next (ptr C) s) hp (xs @ (l + c, False) # ys')" by simp
qed

lemma lay_frame:
  assumes l: "lay s hp bs"
    and f: "heap_start s' = heap_start s" "mem_brk s' = mem_brk s" "mem_max_addr s' = mem_max_addr s"
    and fr: "\<And>j. j \<in> set (atags hp bs) \<Longrightarrow> mv s' j = mv s j"
  shows "lay s' hp bs"
  using lay_replace [where xs = bs and old = "[]" and new = "[]" and ys = "[]" and s = s and s' = s'
      and hp = hp and K = "hp + 32 + total bs"] l f fr
  by simp

lemma add_lay:
  assumes l: "lay s hp bs" and ls: "lst s hp fl"
    and sub: "set fl \<subseteq> set (addrs (hp + 32) bs)"
    and x: "x \<in> set (addrs (hp + 32) bs)"
  shows "lay (add_to_list (ptr x) s) hp bs"
proof (rule lay_frame [OF l])
  have hs: "heap_start s = ptr (hp + 16)" and sz: "sized bs" using l by (auto simp: lay_def)
  have sub': "set (x # fl) \<subseteq> set (addrs (hp + 32) bs)" using sub x by simp
  have sp: "spaced hp (x # fl)" by (rule spaced_subset [OF lay_spaced [OF l] sub'])
  fix j assume j: "j \<in> set (atags hp bs)"
  show "mv (add_to_list (ptr x) s) j = mv s j"
    using atag_not_link [OF sz sub' j] by (intro add_frame [OF hs ls sp]) auto
qed simp_all

lemma remove_lay:
  assumes l: "lay s hp bs" and ls: "lst s hp fl"
    and sub: "set fl \<subseteq> set (addrs (hp + 32) bs)"
    and x: "x \<in> set fl"
  shows "lay (remove_from_list (ptr x) s) hp bs"
proof (rule lay_frame [OF l])
  have hs: "heap_start s = ptr (hp + 16)" and sz: "sized bs" using l by (auto simp: lay_def)
  have sp: "spaced hp fl" by (rule spaced_subset [OF lay_spaced [OF l] sub])
  fix j assume j: "j \<in> set (atags hp bs)"
  show "mv (remove_from_list (ptr x) s) j = mv s j"
    using atag_not_link [OF sz sub j] by (intro remove_frame [OF hs ls sp x]) auto
qed simp_all

lemma coalesce_prev_alloc_eq:
  assumes l: "lay s hp (xs @ (n, False) # ys)" and K: "K = hp + 32 + total xs"
    and pa: "xs = [] \<or> (\<exists>xs' m. xs = xs' @ [(m, True)])"
  shows "coalesce (ptr K) s = (ptr K, add_to_list (ptr K) (merge_next (ptr K) s))"
proof -
  note b = lay_block [OF l K]
  from prev_info [OF l K] obtain m ap where
    p: "mv s (K - 16) = tag m ap" "mv s (K - m - 8) = tag m ap" "16 dvd m" "16 \<le> m"
      "hp + 16 + m \<le> K"
      "if ap then xs = [] \<or> (\<exists>xs'. xs = xs' @ [(m, True)]) else \<exists>xs'. xs = xs' @ [(m, False)]"
    by blast
  have ap: "ap" using p(6) pa by (cases ap) auto
  have bd: "K - 16 < 2 ^ 64" "K - m - 8 < 2 ^ 64" "m \<le> K" "8 \<le> K - m" "16 \<le> K"
    using b p by auto
  have pb: "PREV_BLKP s (ptr K) = ptr (K - m)"
    using bd p by (simp add: PREV_BLKP_def PSUB_def DSIZE_def ptr_sub_num macro_ptr size_simps ptr_sub)
  have "GET_ALLOC s (HDRP (PREV_BLKP s (ptr K))) \<noteq> 0"
    using bd p ap unfolding pb by (simp add: macro_ptr alloc_simps)
  then show ?thesis by (simp add: coalesce_alt Let_def)
qed

lemma coalesce_prev_free_eq:
  assumes l: "lay s hp (xs' @ (m, False) # (n, False) # ys)" and P: "P = hp + 32 + total xs'"
  shows "coalesce (ptr (P + m)) s =
           (ptr P, merge_next (ptr P) (PUT (ptr (P - 8)) (of_nat m + of_nat n) s))"
proof -
  note bp = lay_block [OF l P]
  have l': "lay s hp ((xs' @ [(m, False)]) @ (n, False) # ys)" using l by simp
  have K: "P + m = hp + 32 + total (xs' @ [(m, False)])" using P by simp
  note b = lay_block [OF l' K]
  have bd: "P + m - 16 < 2 ^ 64" "P - 8 < 2 ^ 64" "m \<le> P + m" "8 \<le> P" "16 \<le> P + m"
    "P + m - 8 < 2 ^ 64" "8 \<le> P + m" "P + m - 16 \<noteq> P - 8"
    using b bp by auto
  have pb: "PREV_BLKP s (ptr (P + m)) = ptr P"
    using bd bp ptr_sub [of m "P + m"]
    by (simp add: PREV_BLKP_def PSUB_def DSIZE_def ptr_sub_num macro_ptr size_simps)
  have pf: "GET_ALLOC s (HDRP (PREV_BLKP s (ptr (P + m)))) = 0"
    using bd bp unfolding pb by (simp add: macro_ptr alloc_simps)
  have pb1: "PREV_BLKP (PUT (ptr (P - 8)) v s) (ptr (P + m)) = ptr P" for v
    using bd bp ptr_sub [of m "P + m"]
    by (simp add: PREV_BLKP_def PSUB_def DSIZE_def ptr_sub_num macro_ptr size_simps mv_PUT)
  have sz: "GET_SIZE s (HDRP (ptr P)) = of_nat m" "GET_SIZE s (HDRP (ptr (P + m))) = of_nat n"
    using bd bp b by (simp_all add: macro_ptr size_simps)
  have hp: "HDRP (ptr P) = ptr (P - 8)" using bd by (simp add: macro_ptr)
  show ?thesis
    unfolding coalesce_alt Let_def using pf by (simp add: pb sz sz [unfolded hp] pb1 hp)
qed

lemma alloc_addrs_append [simp]:
  "alloc_addrs k (xs @ ys) = alloc_addrs k xs @ alloc_addrs (k + total xs) ys"
  by (induction xs arbitrary: k) (auto simp: add.assoc)

lemma naf_Cons: "no_adj_free (b # ys) = (no_adj_free ys \<and> (ys = [] \<or> snd b \<or> snd (hd ys)))"
  by (cases b; cases ys) auto

lemma naf_append:
  "no_adj_free (xs @ ys) =
     (no_adj_free xs \<and> no_adj_free ys \<and> (xs = [] \<or> ys = [] \<or> snd (last xs) \<or> snd (hd ys)))"
proof (induction xs)
  case Nil
  then show ?case by simp
next
  case (Cons b xs)
  show ?case
    unfolding append_Cons naf_Cons [of b] Cons.IH
    by (cases xs; cases ys) auto
qed

lemma naf_mid_alloc: "no_adj_free (xs @ (n, True) # ys) = (no_adj_free xs \<and> no_adj_free ys)"
  by (simp add: naf_append naf_Cons)

lemma naf_mid_free:
  "no_adj_free (xs @ (n, False) # ys) =
     (no_adj_free xs \<and> no_adj_free ys \<and> (xs = [] \<or> snd (last xs)) \<and> (ys = [] \<or> snd (hd ys)))"
  by (auto simp: naf_append naf_Cons)

lemma fa_mid:
  "set (free_addrs k (xs @ (n, a) # ys)) =
     set (free_addrs k xs) \<union> (if a then {} else {k + total xs})
       \<union> set (free_addrs (k + total xs + n) ys)"
  by auto

lemma fa_bounds:
  "sized xs \<Longrightarrow> u \<in> set (free_addrs k xs) \<Longrightarrow> k \<le> u \<and> u + 32 \<le> k + total xs"
  using addrs_bounds [of xs u k] free_addrs_in_addrs [of u k xs] by blast

lemma addrs_flag: "addrs k (xs @ (n, a) # ys) = addrs k (xs @ (n, a') # ys)"
  by simp

lemma fa_sub_addrs:
  "set fl = set (free_addrs k (xs @ (n, True) # ys)) \<Longrightarrow>
   set fl \<subseteq> set (addrs k (xs @ (n, False) # ys))"
  using free_addrs_subset [of k "xs @ (n, True) # ys"] by simp

lemma block_list_cases:
  "ys = [] \<or> (\<exists>l ys'. ys = (l, True) # ys') \<or> (\<exists>l ys'. ys = (l, False) # ys')"
  for ys :: "block list"
proof (cases ys)
  case Nil
  then show ?thesis by simp
next
  case (Cons b ys')
  then show ?thesis by (cases b; cases "snd b") auto
qed

lemma coalesce_inv_prev_alloc:
  assumes l: "lay s hp (xs @ (n, False) # ys)" and K: "K = hp + 32 + total xs"
    and ls: "lst s hp fl"
    and fl: "set fl = set (free_addrs (hp + 32) (xs @ (n, True) # ys))"
    and naf: "no_adj_free (xs @ (n, True) # ys)"
    and pa: "xs = [] \<or> snd (last xs)"
  shows "\<exists>c ys0 r. coalesce (ptr K) s = (ptr K, snd (coalesce (ptr K) s))
           \<and> heap_inv (snd (coalesce (ptr K) s)) hp (xs @ (c, False) # ys0) (K # r) \<and> n \<le> c
           \<and> alloc_addrs (hp + 32) (xs @ (c, False) # ys0)
               = alloc_addrs (hp + 32) (xs @ (n, False) # ys)"
proof -
  note b = lay_block [OF l K]
  have pa': "xs = [] \<or> (\<exists>xs' m. xs = xs' @ [(m, True)])"
    using pa by (cases xs rule: rev_cases) auto
  note eq = coalesce_prev_alloc_eq [OF l K pa']
  have sub: "set fl \<subseteq> set (addrs (hp + 32) (xs @ (n, False) # ys))" by (rule fa_sub_addrs [OF fl])
  have sx: "sized xs" "sized ys" using b(9) by auto
  have Kn: "K \<notin> set fl"
    using fl fa_bounds [OF sx(1), of K "hp + 32"] fa_bounds [OF sx(2), of K "hp + 32 + total xs + n"] K b(3)
    by (auto simp: fa_mid)
  have lF: "lay (PUT (ptr (K + n - 16)) (tag n False) s) hp (xs @ (n, False) # ys)"
    using b by (intro lay_PUT_same l) auto
  have nf: "no_adj_free xs" "no_adj_free ys" using naf by (auto simp: naf_mid_alloc)
  define s2 where "s2 = merge_next (ptr K) s"
  have res: "snd (coalesce (ptr K) s) = add_to_list (ptr K) s2" by (simp add: eq s2_def)
  have hs2: "heap_start s2 = ptr (hp + 16)" using b(8) by (simp add: s2_def)
  consider (a) "ys = [] \<or> (\<exists>l' ys'. ys = (l', True) # ys')" | (f) l' ys' where "ys = (l', False) # ys'"
    using block_list_cases [of ys] by blast
  then show ?thesis
  proof cases
    case a
    have l2: "lay s2 hp (xs @ (n, False) # ys)" and ls2: "lst s2 hp fl"
      unfolding s2_def by (rule merge_next_alloc_inv [OF lF K ls sub a])+
    have Ka: "K \<in> set (addrs (hp + 32) (xs @ (n, False) # ys))" using K by simp
    have sp: "spaced hp (K # fl)"
      using sub Ka by (intro spaced_subset [OF lay_spaced [OF l2]]) auto
    have "lay (add_to_list (ptr K) s2) hp (xs @ (n, False) # ys)"
      by (rule add_lay [OF l2 ls2 sub Ka])
    moreover have "lst (add_to_list (ptr K) s2) hp (K # fl)"
      by (rule add_lst [OF hs2 ls2 sp Kn])
    moreover have "set (K # fl) = set (free_addrs (hp + 32) (xs @ (n, False) # ys))"
      using fl K by (auto simp: fa_mid)
    moreover have "no_adj_free (xs @ (n, False) # ys)"
      using nf pa a by (auto simp: naf_mid_free)
    ultimately have "heap_inv (snd (coalesce (ptr K) s)) hp (xs @ (n, False) # ys) (K # fl)"
      by (simp add: heap_inv_def res)
    then show ?thesis using eq by (intro exI [of _ n] exI [of _ ys] exI [of _ fl]) simp
  next
    case f
    have N: "K + n \<in> set fl" using fl f K by (auto simp: fa_mid)
    have lF': "lay (PUT (ptr (K + n - 16)) (tag n False) s) hp (xs @ (n, False) # (l', False) # ys')"
      using lF f by simp
    have sub'': "set fl \<subseteq> set (addrs (hp + 32) (xs @ (n, False) # (l', False) # ys'))"
      using sub f by simp
    let ?bs = "xs @ (l' + n, False) # ys'"
    let ?fl = "remove1 (K + n) fl"
    have l2: "lay s2 hp ?bs" and ls2: "lst s2 hp ?fl"
      unfolding s2_def by (rule merge_next_free_inv [OF lF' K ls sub'' N])+
    have dl: "distinct fl" using ls by (simp add: lst_def)
    have sy: "sized ys'" "32 \<le> l'" using sx f by auto
    have setr: "set ?fl = set (free_addrs (hp + 32) xs) \<union> set (free_addrs (hp + 32 + total xs + (l' + n)) ys')"
      using dl fl f K sy(2) fa_bounds [OF sx(1), of "K + n" "hp + 32"]
        fa_bounds [OF sy(1), of "K + n" "hp + 32 + total xs + n + l'"]
      by (auto simp: fa_mid add.assoc add.commute [of l' n])
    have sub2: "set ?fl \<subseteq> set (addrs (hp + 32) ?bs)"
      unfolding setr using free_addrs_subset [of "hp + 32" xs]
        free_addrs_subset [of "hp + 32 + total xs + (l' + n)" ys'] by auto
    have Ka: "K \<in> set (addrs (hp + 32) ?bs)" using K by simp
    have Kn': "K \<notin> set ?fl" using Kn by (auto dest: notin_set_remove1)
    have sp: "spaced hp (K # ?fl)"
      using sub2 Ka by (intro spaced_subset [OF lay_spaced [OF l2]]) auto
    have "lay (add_to_list (ptr K) s2) hp ?bs"
      by (rule add_lay [OF l2 ls2 sub2 Ka])
    moreover have "lst (add_to_list (ptr K) s2) hp (K # ?fl)"
      by (rule add_lst [OF hs2 ls2 sp Kn'])
    moreover have "set (K # ?fl) = set (free_addrs (hp + 32) ?bs)"
      using setr K by (auto simp: fa_mid)
    moreover have "no_adj_free ?bs"
      using nf pa f by (auto simp: naf_mid_free naf_Cons)
    ultimately have "heap_inv (snd (coalesce (ptr K) s)) hp ?bs (K # ?fl)"
      by (simp add: heap_inv_def res)
    moreover have "alloc_addrs (hp + 32) ?bs = alloc_addrs (hp + 32) (xs @ (n, False) # ys)"
      unfolding f by (simp add: add.assoc add.commute [of l' n])
    ultimately show ?thesis
      using eq by (intro exI [of _ "l' + n"] exI [of _ ys'] exI [of _ ?fl]) simp
  qed
qed

lemma coalesce_inv_prev_free:
  assumes l: "lay s hp (xs' @ (m, False) # (n, False) # ys)" and P: "P = hp + 32 + total xs'"
    and ls: "lst s hp fl"
    and fl: "set fl = set (free_addrs (hp + 32) (xs' @ (m, False) # (n, True) # ys))"
    and naf: "no_adj_free (xs' @ (m, False) # (n, True) # ys)"
  shows "\<exists>c ys0 fl'. coalesce (ptr (P + m)) s = (ptr P, snd (coalesce (ptr (P + m)) s))
           \<and> heap_inv (snd (coalesce (ptr (P + m)) s)) hp (xs' @ (c, False) # ys0) fl'
           \<and> m + n \<le> c \<and> P \<in> set fl'
           \<and> alloc_addrs (hp + 32) (xs' @ (c, False) # ys0)
               = alloc_addrs (hp + 32) (xs' @ (m, False) # (n, False) # ys)"
proof -
  note eq = coalesce_prev_free_eq [OF l P]
  note bp = lay_block [OF l P]
  have l': "lay s hp ((xs' @ [(m, False)]) @ (n, False) # ys)" using l by simp
  have K: "P + m = hp + 32 + total (xs' @ [(m, False)])" using P by simp
  note b = lay_block [OF l' K]
  let ?old = "xs' @ (m, False) # (n, False) # ys"
  let ?new = "xs' @ (m + n, False) # ys"
  have sx: "sized xs'" "sized ys" using bp(9) by auto
  have bd: "P - 8 < 2 ^ 64" "P + (m + n) - 16 < 2 ^ 64" "32 \<le> m" "32 \<le> n" "8 \<le> P"
    "16 dvd m" "16 dvd n" "P + m + n < 2 ^ 64"
    using bp b by auto
  have fls: "set fl = set (free_addrs (hp + 32) xs') \<union> {P}
               \<union> set (free_addrs (hp + 32 + total xs' + (m + n)) ys)"
    using fl P by (auto simp: fa_mid add.assoc)
  have sub: "set fl \<subseteq> set (addrs (hp + 32) ?old)"
    using fl free_addrs_subset [of "hp + 32" "xs' @ (m, False) # (n, True) # ys"] by simp
  have subN: "set fl \<subseteq> set (addrs (hp + 32) ?new)"
    unfolding fls using free_addrs_subset [of "hp + 32" xs']
      free_addrs_subset [of "hp + 32 + total xs' + (m + n)" ys] P by auto
  define s1 where "s1 = PUT (ptr (P - 8)) (of_nat m + of_nat n) s"
  have ls1: "lst s1 hp fl"
    unfolding s1_def using atag_not_link [OF bp(9) sub in_atags_block(1) [OF P]] bd
    by (intro lst_PUT_links ls) auto
  define sF where "sF = PUT (ptr (P + (m + n) - 16)) (tag (m + n) False) s1"
  have mF: "mv sF = (mv s)(P - 8 := of_nat m + of_nat n, P + (m + n) - 16 := of_nat m + of_nat n)"
    unfolding sF_def s1_def using bd by (simp add: mv_PUT tag_False)
  have "lay sF hp (xs' @ [(m + n, False)] @ ys)"
  proof (rule lay_replace [where old = "[(m, False), (n, False)]" and s = s, OF _ P])
    show "lay s hp (xs' @ [(m, False), (n, False)] @ ys)" using l by simp
    show "segs (mv sF) P [(m + n, False)]" unfolding mF using bd by (auto simp: tag_False)
    show "sized [(m + n, False)]" using bd by simp
    show "mv sF j = mv s j"
      if "j \<in> set (atags hp (xs' @ [(m, False), (n, False)] @ ys))"
        "j \<notin> set (tags P [(m, False), (n, False)])" for j
      using that(2) unfolding mF by (auto simp: add.assoc)
  qed (simp_all add: sF_def s1_def)
  then have lF: "lay (PUT (ptr (P + (m + n) - 16)) (tag (m + n) False) s1) hp ?new"
    by (simp add: sF_def)
  have nf: "no_adj_free xs'" "no_adj_free ys" "xs' = [] \<or> snd (last xs')"
    using naf by (auto simp: naf_append naf_Cons)
  have res: "snd (coalesce (ptr (P + m)) s) = merge_next (ptr P) s1" by (simp add: eq s1_def)
  have Pfl: "P \<in> set fl" using fls by simp
  consider (a) "ys = [] \<or> (\<exists>l' ys'. ys = (l', True) # ys')" | (f) l' ys' where "ys = (l', False) # ys'"
    using block_list_cases [of ys] by blast
  then show ?thesis
  proof cases
    case a
    have "lay (merge_next (ptr P) s1) hp ?new" "lst (merge_next (ptr P) s1) hp fl"
      by (rule merge_next_alloc_inv [OF lF P ls1 subN a])+
    moreover have "set fl = set (free_addrs (hp + 32) ?new)"
      unfolding fls fa_mid by (simp add: P)
    moreover have "no_adj_free ?new" using nf a by (auto simp: naf_mid_free)
    ultimately have "heap_inv (snd (coalesce (ptr (P + m)) s)) hp ?new fl" by (simp add: heap_inv_def res)
    moreover have "alloc_addrs (hp + 32) ?new
                     = alloc_addrs (hp + 32) (xs' @ (m, False) # (n, False) # ys)"
      by (simp add: add.assoc)
    ultimately show ?thesis
      using eq Pfl by (intro exI [of _ "m + n"] exI [of _ ys] exI [of _ fl]) simp
  next
    case f
    have N: "P + (m + n) \<in> set fl" unfolding fls f P by (simp add: add.assoc)
    have lF': "lay (PUT (ptr (P + (m + n) - 16)) (tag (m + n) False) s1) hp
                 (xs' @ (m + n, False) # (l', False) # ys')"
      using lF f by simp
    have subN': "set fl \<subseteq> set (addrs (hp + 32) (xs' @ (m + n, False) # (l', False) # ys'))"
      using subN f by simp
    let ?bs = "xs' @ (l' + (m + n), False) # ys'"
    let ?fl = "remove1 (P + (m + n)) fl"
    have l2: "lay (merge_next (ptr P) s1) hp ?bs" and ls2: "lst (merge_next (ptr P) s1) hp ?fl"
      by (rule merge_next_free_inv [OF lF' P ls1 subN' N])+
    have dl: "distinct fl" using ls by (simp add: lst_def)
    have sy: "sized ys'" "32 \<le> l'" using sx f by auto
    have n1: "P + (m + n) \<notin> set (free_addrs (hp + 32) xs')" "P + (m + n) \<noteq> P"
      "P + (m + n) \<notin> set (free_addrs (hp + 32 + total xs' + (l' + (m + n))) ys')"
      using P sy(2) bd(3,4) fa_bounds [OF sx(1), of "P + (m + n)" "hp + 32"]
        fa_bounds [OF sy(1), of "P + (m + n)" "hp + 32 + total xs' + (l' + (m + n))"]
      by auto
    have e1: "hp + 32 + total xs' + (m + n) + l' = hp + 32 + total xs' + (l' + (m + n))" by simp
    have setr: "set ?fl = set (free_addrs (hp + 32) xs') \<union> {P}
                  \<union> set (free_addrs (hp + 32 + total xs' + (l' + (m + n))) ys')"
      unfolding set_remove1_eq [OF dl] fls f free_addrs.simps if_False list.set e1
      using n1 P by (auto simp: add.assoc)
    have "set ?fl = set (free_addrs (hp + 32) ?bs)" unfolding setr fa_mid by (simp add: P)
    moreover have "no_adj_free ?bs" using nf f by (auto simp: naf_mid_free naf_Cons)
    ultimately have "heap_inv (snd (coalesce (ptr (P + m)) s)) hp ?bs ?fl"
      using l2 ls2 by (simp add: heap_inv_def res)
    moreover have "P \<in> set ?fl" using setr by simp
    moreover have "alloc_addrs (hp + 32) ?bs
                     = alloc_addrs (hp + 32) (xs' @ (m, False) # (n, False) # ys)"
      unfolding f by (simp add: add.assoc add.commute [of l' "m + n"])
    ultimately show ?thesis
      using eq by (intro exI [of _ "l' + (m + n)"] exI [of _ ys'] exI [of _ ?fl]) simp
  qed
qed

text \<open>Both cases together.\<close>

lemma coalesce_inv:
  assumes l: "lay s hp (xs @ (n, False) # ys)" and K: "K = hp + 32 + total xs"
    and ls: "lst s hp fl"
    and fl: "set fl = set (free_addrs (hp + 32) (xs @ (n, True) # ys))"
    and naf: "no_adj_free (xs @ (n, True) # ys)"
  shows "\<exists>C xs0 c ys0 fl'. coalesce (ptr K) s = (ptr C, snd (coalesce (ptr K) s))
           \<and> heap_inv (snd (coalesce (ptr K) s)) hp (xs0 @ (c, False) # ys0) fl'
           \<and> C = hp + 32 + total xs0 \<and> n \<le> c \<and> C \<in> set fl'
           \<and> alloc_addrs (hp + 32) (xs0 @ (c, False) # ys0)
               = alloc_addrs (hp + 32) (xs @ (n, False) # ys)
           \<and> (xs = [] \<or> snd (last xs) \<longrightarrow> C = K \<and> xs0 = xs \<and> hd fl' = K)"
proof (cases "xs = [] \<or> snd (last xs)")
  case True
  from coalesce_inv_prev_alloc [OF l K ls fl naf True] obtain c ys0 r where
    "coalesce (ptr K) s = (ptr K, snd (coalesce (ptr K) s))"
    "heap_inv (snd (coalesce (ptr K) s)) hp (xs @ (c, False) # ys0) (K # r)" "n \<le> c"
    "alloc_addrs (hp + 32) (xs @ (c, False) # ys0) = alloc_addrs (hp + 32) (xs @ (n, False) # ys)"
    by blast
  then show ?thesis
    using K by (intro exI [of _ K] exI [of _ xs] exI [of _ c] exI [of _ ys0] exI [of _ "K # r"]) simp
next
  case False
  then obtain xs' m where xs: "xs = xs' @ [(m, False)]"
    by (cases xs rule: rev_cases) auto
  define P where "P = hp + 32 + total xs'"
  have KP: "K = P + m" using K xs by (simp add: P_def)
  have l': "lay s hp (xs' @ (m, False) # (n, False) # ys)" using l xs by simp
  have fl': "set fl = set (free_addrs (hp + 32) (xs' @ (m, False) # (n, True) # ys))"
    using fl xs by simp
  have naf': "no_adj_free (xs' @ (m, False) # (n, True) # ys)" using naf xs by simp
  from coalesce_inv_prev_free [OF l' P_def ls fl' naf'] obtain c ys0 fl2 where
    "coalesce (ptr (P + m)) s = (ptr P, snd (coalesce (ptr (P + m)) s))"
    "heap_inv (snd (coalesce (ptr (P + m)) s)) hp (xs' @ (c, False) # ys0) fl2"
    "m + n \<le> c" "P \<in> set fl2"
    "alloc_addrs (hp + 32) (xs' @ (c, False) # ys0)
       = alloc_addrs (hp + 32) (xs' @ (m, False) # (n, False) # ys)"
    by blast
  then show ?thesis
    using False unfolding KP
    by (intro exI [of _ P] exI [of _ xs'] exI [of _ c] exI [of _ ys0] exI [of _ fl2])
      (simp add: P_def xs)
qed

lemma sint_nonneg_ptr:
  assumes k: "k < 2 ^ 63"
  shows "\<not> sint (ptr k) < 0"
proof -
  have "(of_nat k :: 64 word) = word_of_int (int k)" by simp
  then have "sint (of_nat k :: 64 word) = (int k + 2 ^ 63) mod 2 ^ 64 - 2 ^ 63"
    by (simp only: int_word_sint) simp
  moreover have "(int k + 2 ^ 63) mod 2 ^ 64 = int k + 2 ^ 63" using k by simp
  ultimately show ?thesis by (simp add: ptr_def)
qed

lemma words_of_size:
  assumes "16 dvd E" "E < 2 ^ 64"
  shows "(of_nat E div 8 :: 64 word) * 8 = of_nat E" "(of_nat E div 8 :: 64 word) mod 2 \<noteq> 1"
proof -
  from assms obtain q where q: "E = 16 * q" by (auto simp: dvd_def)
  have u: "unat (of_nat E :: 64 word) = E" using assms by (simp add: unat_of_nat)
  have d: "unat (of_nat E div 8 :: 64 word) = 2 * q"
    by (simp add: unat_div u) (simp add: q)
  have "(of_nat (unat (of_nat E div 8 :: 64 word)) :: 64 word) = of_nat E div 8" by simp
  then have e: "(of_nat E div 8 :: 64 word) = of_nat (2 * q)" unfolding d by simp
  show "(of_nat E div 8 :: 64 word) * 8 = of_nat E" by (subst e) (simp add: q)
  have "unat ((of_nat E div 8 :: 64 word) mod 2) = 0"
    by (simp add: unat_mod d)
  then show "(of_nat E div 8 :: 64 word) mod 2 \<noteq> 1" by (metis unat_1 zero_neq_one)
qed

lemma coalesce_fields [simp]:
  "grow_calls (snd (coalesce bp s)) = grow_calls s"
  "mem_brk (snd (coalesce bp s)) = mem_brk s"
  "heap_start (snd (coalesce bp s)) = heap_start s"
  "mem_max_addr (snd (coalesce bp s)) = mem_max_addr s"
  by (simp_all add: coalesce_alt Let_def)

lemma mv_fields [simp]:
  "mv (s\<lparr>mem_brk := b\<rparr>) = mv s" "mv (s\<lparr>grow_calls := g\<rparr>) = mv s"
  by (simp_all add: mv_def fun_eq_iff)

lemma extend_heap_fail:
  assumes "E < 2 ^ 64" "16 dvd E" "unat (mem_max_addr s) < unat (mem_brk s) + E"
  shows "extend_heap (of_nat E div 8) s = (NULL, s)"
  using assms words_of_size [OF assms(2,1)]
  by (simp add: extend_heap_def Let_def WSIZE_def mem_sbrk_def unat_of_nat)

lemma extend_heap_eq:
  assumes l: "lay s hp bs" and B: "B = hp + 32 + total bs"
    and E: "E < 2 ^ 64" "16 dvd E" "32 \<le> E" "unat (mem_brk s) + E \<le> unat (mem_max_addr s)"
  shows "extend_heap (of_nat E div 8) s =
           coalesce (ptr B)
             (PUT (ptr (B + E - 8)) 1
               (PUT (ptr (B + E - 16)) (of_nat E)
                 (PUT (ptr (B - 8)) (of_nat E)
                   (s\<lparr>mem_brk := mem_brk s + of_nat E, grow_calls := Suc (grow_calls s)\<rparr>))))"
proof -
  have br: "unat (mem_brk s) = B" "unat (mem_max_addr s) \<le> 2 ^ 63"
    using l B by (auto simp: lay_def)
  have pb: "mem_brk s = ptr B" using br(1) ptr_unat [of "mem_brk s"] by simp
  have bd: "B < 2 ^ 63" "8 \<le> B" "B - 8 < 2 ^ 64" "B + E < 2 ^ 64" using br E B by auto
  have ns: "\<not> sint (ptr B) < 0" by (rule sint_nonneg_ptr [OF bd(1)])
  show ?thesis
    using E words_of_size [OF E(2,1)] ns bd
    unfolding extend_heap_def Let_def
    by (simp add: WSIZE_def mem_sbrk_def unat_of_nat pb macro_ptr FTRP_def NEXT_BLKP_def PADD_def
        DSIZE_def mv_PUT size_simps ptr_add_sub16 ptr_add PACK_def)
qed

lemma extend_heap_inv:
  assumes i: "heap_inv s hp bs fl"
    and E: "E < 2 ^ 64" "16 dvd E" "32 \<le> E" "unat (mem_brk s) + E \<le> unat (mem_max_addr s)"
  shows "\<exists>C xs0 c ys0 fl'.
           extend_heap (of_nat E div 8) s = (ptr C, snd (extend_heap (of_nat E div 8) s))
           \<and> heap_inv (snd (extend_heap (of_nat E div 8) s)) hp (xs0 @ (c, False) # ys0) fl'
           \<and> C = hp + 32 + total xs0 \<and> E \<le> c \<and> C \<in> set fl'
           \<and> alloc_addrs (hp + 32) (xs0 @ (c, False) # ys0) = alloc_addrs (hp + 32) bs
           \<and> grow_calls (snd (extend_heap (of_nat E div 8) s)) = Suc (grow_calls s)"
proof -
  have l: "lay s hp bs" and ls: "lst s hp fl" and fl: "set fl = set (free_addrs (hp + 32) bs)"
    and naf: "no_adj_free bs"
    using i by (auto simp: heap_inv_def)
  define B where "B = hp + 32 + total bs"
  note eq = extend_heap_eq [OF l B_def E]
  define s1 where "s1 = s\<lparr>mem_brk := mem_brk s + of_nat E, grow_calls := Suc (grow_calls s)\<rparr>"
  define s4 where "s4 = PUT (ptr (B + E - 8)) 1 (PUT (ptr (B + E - 16)) (of_nat E)
                          (PUT (ptr (B - 8)) (of_nat E) s1))"
  have br: "unat (mem_brk s) = B" "unat (mem_max_addr s) \<le> 2 ^ 63" "sized bs"
    "heap_start s = ptr (hp + 16)" "mv s (hp + 8) = 17" "mv s (hp + 16) = 17"
    "segs (mv s) (hp + 32) bs"
    using l by (auto simp: lay_def B_def)
  have bd: "hp + 32 \<le> B" "B + E < 2 ^ 64" using br E by (auto simp: B_def)
  have m4: "mv s4 = (mv s)(B - 8 := of_nat E, B + E - 16 := of_nat E, B + E - 8 := 1)"
    unfolding s4_def s1_def using bd by (simp add: mv_PUT)
  have sub: "set fl \<subseteq> set (addrs (hp + 32) bs)" using fl free_addrs_subset by blast
  have far: "\<forall>u \<in> set fl. u + 32 \<le> B \<or> B + (E + 8) \<le> u"
    using sub addrs_bounds [OF br(3), of _ "hp + 32"] by (auto simp: B_def)
  have ls1: "lst s1 hp fl" using ls by (simp add: lst_def s1_def)
  have ls4: "lst s4 hp fl"
    unfolding s4_def using bd E
    by (intro lst_PUT_links ls1 range_not_link [OF far]) auto
  have ub: "unat (mem_brk s + of_nat E) = B + E"
    using br(1) bd E by (simp add: unat_word_ariths unat_of_nat)
  have sg: "segs (mv s4) (hp + 32) bs = segs (mv s) (hp + 32) bs"
  proof (rule segs_cong)
    fix j assume "j \<in> set (tags (hp + 32) bs)"
    from tags_bounds [OF br(3) _ this] have "j + 16 \<le> B" by (simp add: B_def)
    then have "j \<noteq> B - 8" "j \<noteq> B + E - 16" "j \<noteq> B + E - 8" using E(3) by auto
    then show "mv s4 j = mv s j" unfolding m4 by simp
  qed
  have c1: "mv s4 (hp + 8) = 17" "mv s4 (hp + 16) = 17"
    unfolding m4 using br(5,6) bd(1) E(3) by auto
  have c2: "mv s4 (B - 8) = tag E False" "mv s4 (B + E - 16) = tag E False"
    "mv s4 (B + E - 8) = 1"
    unfolding m4 using bd(1) E(3) by (auto simp: tag_False)
  have c3: "heap_start s4 = ptr (hp + 16)" "unat (mem_brk s4) = B + E"
    "mem_max_addr s4 = mem_max_addr s"
    using br(4) ub by (simp_all add: s4_def s1_def)
  have t4: "hp + 32 + total (bs @ (E, False) # []) = B + E" by (simp add: B_def)
  have sg4: "segs (mv s4) (hp + 32) (bs @ (E, False) # [])"
    using sg br(7) c2(1,2) by (simp add: B_def)
  have l4: "lay s4 hp (bs @ (E, False) # [])"
    unfolding lay_def t4 c3
    using c1 c2(3) sg4 br(1,2,3) E by simp
  have fl4: "set fl = set (free_addrs (hp + 32) (bs @ (E, True) # []))" using fl by simp
  have naf4: "no_adj_free (bs @ (E, True) # [])" using naf by (simp add: naf_mid_alloc)
  from coalesce_inv [OF l4 B_def ls4 fl4 naf4] obtain C xs0 c ys0 fl' where
    r: "coalesce (ptr B) s4 = (ptr C, snd (coalesce (ptr B) s4))"
      "heap_inv (snd (coalesce (ptr B) s4)) hp (xs0 @ (c, False) # ys0) fl'"
      "C = hp + 32 + total xs0" "E \<le> c" "C \<in> set fl'"
      "alloc_addrs (hp + 32) (xs0 @ (c, False) # ys0)
         = alloc_addrs (hp + 32) (bs @ (E, False) # [])"
    by blast
  have e: "extend_heap (of_nat E div 8) s = coalesce (ptr B) s4"
    unfolding eq s4_def s1_def ..
  have g: "grow_calls (snd (coalesce (ptr B) s4)) = Suc (grow_calls s)"
    by (simp add: s4_def s1_def)
  show ?thesis
    unfolding e
    by (insert r g) (rule exI [of _ C], rule exI [of _ xs0], rule exI [of _ c],
        rule exI [of _ ys0], rule exI [of _ fl'], simp)
qed

lemma alloc_addrs_in_addrs: "x \<in> set (alloc_addrs k bs) \<Longrightarrow> x \<in> set (addrs k bs)"
  by (induction bs arbitrary: k) (auto split: if_splits)

lemma aa_bounds:
  "sized xs \<Longrightarrow> u \<in> set (alloc_addrs k xs) \<Longrightarrow> k \<le> u \<and> u + 32 \<le> k + total xs"
  using addrs_bounds [of xs u k] alloc_addrs_in_addrs [of u k xs] by blast

lemma free_split:
  "K \<in> set (free_addrs k bs) \<Longrightarrow> \<exists>xs n ys. bs = xs @ (n, False) # ys \<and> K = k + total xs"
proof (induction bs arbitrary: k)
  case Nil
  then show ?case by simp
next
  case (Cons b bs)
  obtain n a where b: "b = (n, a)" by (cases b)
  show ?case
  proof (cases "K = k \<and> \<not> a")
    case True
    then show ?thesis using b by (intro exI [of _ "[]"] exI [of _ n] exI [of _ bs]) simp
  next
    case False
    then have "K \<in> set (free_addrs (k + n) bs)" using Cons.prems b by (auto split: if_splits)
    from Cons.IH [OF this] obtain xs n' ys where "bs = xs @ (n', False) # ys" "K = k + n + total xs"
      by blast
    then show ?thesis
      using b by (intro exI [of _ "(n, a) # xs"] exI [of _ n'] exI [of _ ys]) simp
  qed
qed

lemma alloc_split:
  "K \<in> set (alloc_addrs k bs) \<Longrightarrow> \<exists>xs n ys. bs = xs @ (n, True) # ys \<and> K = k + total xs"
proof (induction bs arbitrary: k)
  case Nil
  then show ?case by simp
next
  case (Cons b bs)
  obtain n a where b: "b = (n, a)" by (cases b)
  show ?case
  proof (cases "K = k \<and> a")
    case True
    then show ?thesis using b by (intro exI [of _ "[]"] exI [of _ n] exI [of _ bs]) simp
  next
    case False
    then have "K \<in> set (alloc_addrs (k + n) bs)" using Cons.prems b by (auto split: if_splits)
    from Cons.IH [OF this] obtain xs n' ys where "bs = xs @ (n', True) # ys" "K = k + n + total xs"
      by blast
    then show ?thesis
      using b by (intro exI [of _ "(n, a) # xs"] exI [of _ n'] exI [of _ ys]) simp
  qed
qed

lemma mid_not_alloc:
  assumes "sized (xs @ (n, a) # ys)" "K = k + total xs"
  shows "K \<notin> set (alloc_addrs k xs)" "K \<notin> set (alloc_addrs (k + total xs + n) ys)"
    "K \<notin> set (free_addrs k xs)" "K \<notin> set (free_addrs (k + total xs + n) ys)"
  using assms aa_bounds [of xs K k] aa_bounds [of ys K "k + total xs + n"]
    fa_bounds [of xs K k] fa_bounds [of ys K "k + total xs + n"]
  by auto

lemma place_inv:
  assumes i: "heap_inv s hp (xs @ (n, False) # ys) fl" and K: "K = hp + 32 + total xs"
    and A: "32 \<le> A" "16 dvd A" "A \<le> n"
  shows "\<exists>c ys1 fl'. heap_inv (place (ptr K) (of_nat A) s) hp (xs @ (c, True) # ys1) fl' \<and> A \<le> c
           \<and> set (alloc_addrs (hp + 32) (xs @ (c, True) # ys1))
               = insert K (set (alloc_addrs (hp + 32) (xs @ (n, False) # ys)))
           \<and> K \<notin> set (alloc_addrs (hp + 32) (xs @ (n, False) # ys))"
proof -
  let ?bs = "xs @ (n, False) # ys"
  have l: "lay s hp ?bs" and ls: "lst s hp fl" and fl: "set fl = set (free_addrs (hp + 32) ?bs)"
    and naf: "no_adj_free ?bs"
    using i by (auto simp: heap_inv_def)
  have sub: "set fl \<subseteq> set (addrs (hp + 32) ?bs)" using fl free_addrs_subset by blast
  have Kfl: "K \<in> set fl" unfolding fl fa_mid using K by simp
  have dl: "distinct fl" using ls by (simp add: lst_def)
  have sz: "sized ?bs" using l by (simp add: lay_def)
  note nk = mid_not_alloc [OF sz K]
  have nKa: "K \<notin> set (alloc_addrs (hp + 32) ?bs)" using nk(1,2) by simp
  have nf: "no_adj_free xs" "no_adj_free ys" "xs = [] \<or> snd (last xs)" "ys = [] \<or> snd (hd ys)"
    using naf by (auto simp: naf_mid_free)
  define d where "d = n - A"
  have nd: "n = A + d" using A by (simp add: d_def)
  have setr: "set (remove1 K fl) = set (free_addrs (hp + 32) xs)
               \<union> set (free_addrs (hp + 32 + total xs + n) ys)"
    unfolding set_remove1_eq [OF dl] fl fa_mid using nk(3,4) K by auto
  show ?thesis
  proof (cases "d < 32")
    case True
    have "lay (place (ptr K) (of_nat A) s) hp (xs @ (n, True) # ys)"
      "lst (place (ptr K) (of_nat A) s) hp (remove1 K fl)"
      by (rule place_nosplit_inv [OF l ls sub K Kfl nd True])+
    moreover have "set (remove1 K fl) = set (free_addrs (hp + 32) (xs @ (n, True) # ys))"
      unfolding setr fa_mid by simp
    moreover have "no_adj_free (xs @ (n, True) # ys)" using nf by (simp add: naf_mid_alloc)
    ultimately have "heap_inv (place (ptr K) (of_nat A) s) hp (xs @ (n, True) # ys) (remove1 K fl)"
      by (simp add: heap_inv_def)
    moreover have "set (alloc_addrs (hp + 32) (xs @ (n, True) # ys))
                     = insert K (set (alloc_addrs (hp + 32) ?bs))"
      using K by simp
    ultimately show ?thesis
      using A nKa by (intro exI [of _ n] exI [of _ ys] exI [of _ "remove1 K fl"]) simp
  next
    case False
    then have d32: "32 \<le> d" by simp
    let ?new = "xs @ (A, True) # (d, False) # ys"
    let ?fl = "(K + A) # remove1 K fl"
    have "lay (place (ptr K) (of_nat A) s) hp ?new" "lst (place (ptr K) (of_nat A) s) hp ?fl"
      by (rule place_split_inv [OF l ls sub K Kfl nd d32 A(1,2)])+
    moreover have "set ?fl = set (free_addrs (hp + 32) ?new)"
      unfolding list.set setr fa_mid by (simp add: K nd add.assoc)
    moreover have "no_adj_free ?new" using nf by (auto simp: naf_append naf_Cons)
    ultimately have "heap_inv (place (ptr K) (of_nat A) s) hp ?new ?fl" by (simp add: heap_inv_def)
    moreover have "set (alloc_addrs (hp + 32) ?new) = insert K (set (alloc_addrs (hp + 32) ?bs))"
      using K nd by (simp add: add.assoc)
    ultimately show ?thesis
      using nKa by (intro exI [of _ A] exI [of _ "(d, False) # ys"] exI [of _ ?fl]) simp
  qed
qed

lemma mm_free_eq:
  assumes l: "lay s hp (xs @ (n, True) # ys)" and K: "K = hp + 32 + total xs"
  shows "mm_free (ptr K) s =
           snd (coalesce (ptr K)
                 (PUT (ptr (K - 8)) (of_nat n) (PUT (ptr (K + n - 16)) (of_nat n) s)))"
proof -
  note b = lay_block [OF l K]
  have bd: "8 \<le> K" "K - 8 < 2 ^ 64" "K + n - 16 < 2 ^ 64" "16 \<le> n" "K - 8 \<noteq> K + n - 16"
    using b by auto
  show ?thesis
    unfolding mm_free_def Let_def using bd b(1,4)
    by (simp add: FTRP_def PADD_def DSIZE_def macro_ptr size_simps ptr_add_sub16 mv_PUT)
qed

lemma mm_free_inv:
  assumes i: "heap_inv s hp (xs @ (n, True) # ys) fl" and K: "K = hp + 32 + total xs"
  shows "\<exists>C xs0 c ys0 fl'.
           heap_inv (mm_free (ptr K) s) hp (xs0 @ (c, False) # ys0) fl'
           \<and> C = hp + 32 + total xs0 \<and> n \<le> c \<and> C \<in> set fl'
           \<and> alloc_addrs (hp + 32) (xs0 @ (c, False) # ys0)
               = alloc_addrs (hp + 32) (xs @ (n, False) # ys)
           \<and> (xs = [] \<or> snd (last xs) \<longrightarrow> C = K \<and> xs0 = xs \<and> hd fl' = K)
           \<and> grow_calls (mm_free (ptr K) s) = grow_calls s"
proof -
  let ?bs = "xs @ (n, True) # ys"
  have l: "lay s hp ?bs" and ls: "lst s hp fl" and fl: "set fl = set (free_addrs (hp + 32) ?bs)"
    and naf: "no_adj_free ?bs"
    using i by (auto simp: heap_inv_def)
  note b = lay_block [OF l K]
  note eq = mm_free_eq [OF l K]
  have sub: "set fl \<subseteq> set (addrs (hp + 32) ?bs)" using fl free_addrs_subset by blast
  define s2 where "s2 = PUT (ptr (K - 8)) (of_nat n) (PUT (ptr (K + n - 16)) (of_nat n) s)"
  have bd: "K - 8 < 2 ^ 64" "K + n - 16 < 2 ^ 64" "32 \<le> n" "16 dvd n" using b by auto
  have m2: "mv s2 = (mv s)(K + n - 16 := of_nat n, K - 8 := of_nat n)"
    unfolding s2_def using bd by (simp add: mv_PUT)
  have ls2: "lst s2 hp fl"
    unfolding s2_def
    using atag_not_link [OF b(9) sub in_atags_block(1) [OF K]]
      atag_not_link [OF b(9) sub in_atags_block(2) [OF K]] bd
    by (intro lst_PUT_links ls) auto
  have "lay s2 hp (xs @ [(n, False)] @ ys)"
  proof (rule lay_replace [where old = "[(n, True)]" and s = s, OF _ K])
    show "lay s hp (xs @ [(n, True)] @ ys)" using l by simp
    show "segs (mv s2) K [(n, False)]" unfolding m2 using bd by (auto simp: tag_False)
    show "sized [(n, False)]" using bd by simp
    show "mv s2 j = mv s j"
      if "j \<in> set (atags hp (xs @ [(n, True)] @ ys))" "j \<notin> set (tags K [(n, True)])" for j
      using that(2) unfolding m2 by auto
  qed (simp_all add: s2_def)
  then have l2: "lay s2 hp (xs @ (n, False) # ys)" by simp
  from coalesce_inv [OF l2 K ls2 fl naf] obtain C xs0 c ys0 fl' where
    r: "heap_inv (snd (coalesce (ptr K) s2)) hp (xs0 @ (c, False) # ys0) fl'"
      "C = hp + 32 + total xs0" "n \<le> c" "C \<in> set fl'"
      "alloc_addrs (hp + 32) (xs0 @ (c, False) # ys0) = alloc_addrs (hp + 32) (xs @ (n, False) # ys)"
      "xs = [] \<or> snd (last xs) \<longrightarrow> C = K \<and> xs0 = xs \<and> hd fl' = K"
    by blast
  have e: "mm_free (ptr K) s = snd (coalesce (ptr K) s2)" unfolding eq s2_def ..
  have g: "grow_calls (snd (coalesce (ptr K) s2)) = grow_calls s" by (simp add: s2_def)
  show ?thesis
    unfolding e
    by (insert r g K) (rule exI [of _ C], rule exI [of _ xs0], rule exI [of _ c],
        rule exI [of _ ys0], rule exI [of _ fl'], simp)
qed

lemma nseg_chain:
  "nseg (mv s) p fl 0 \<Longrightarrow> \<forall>x \<in> set fl. 0 < x \<and> x < 2 ^ 64 \<Longrightarrow> chain (mem s) p (map ptr fl)"
proof (induction fl arbitrary: p)
  case Nil
  then show ?case by (simp add: NULL_def)
next
  case (Cons x xs)
  then show ?case by (simp add: NULL_def ptr_0_iff mem_ptr)
qed

lemma inv_chain:
  assumes "heap_inv s hp bs fl"
  shows "chain (mem s) (HEAD s) (map ptr fl)"
proof -
  have l: "lay s hp bs" and ls: "lst s hp fl" and fl: "set fl = set (free_addrs (hp + 32) bs)"
    using assms by (auto simp: heap_inv_def)
  have sub: "set fl \<subseteq> set (addrs (hp + 32) bs)" using fl free_addrs_subset by blast
  have sp: "spaced hp fl" by (rule spaced_subset [OF lay_spaced [OF l] sub])
  have b: "\<forall>x \<in> set fl. 0 < x \<and> x < 2 ^ 64" using spaced_mem [OF sp] by fastforce
  have hs: "heap_start s = ptr (hp + 16)" "hp + 16 < 2 ^ 64"
    using l lay_bound [OF l] by (auto simp: lay_def)
  show ?thesis
    unfolding head_ptr(1) [OF hs] using ls b by (intro nseg_chain) (auto simp: lst_def)
qed

lemma first_fit_SomeD:
  "first_fit s asize (map ptr fl) = Some bp \<Longrightarrow>
   \<exists>K \<in> set fl. bp = ptr K \<and> asize \<le> GET_SIZE s (HDRP (ptr K))"
  by (induction fl) (auto simp: first_fit_def split: if_splits)

lemma adjust_size_facts:
  assumes "sz \<noteq> 0" "unat sz \<le> 2 ^ 64 - 32"
  shows "32 \<le> unat (adjust_size sz)" "16 dvd unat (adjust_size sz)"
    "unat sz + 16 \<le> unat (adjust_size sz)"
    "unat (adjust_size sz) = (if unat sz \<le> 16 then 32 else (unat sz + 15) div 16 * 16 + 16)"
proof -
  have e: "unat (adjust_size sz) = (if unat sz \<le> 16 then 32 else (unat sz + 15) div 16 * 16 + 16)"
  proof (cases "sz \<le> 16")
    case True
    then show ?thesis by (simp add: adjust_size_def DSIZE_def OVERHEAD_def word_le_nat_alt)
  next
    case False
    have 1: "unat (sz + 16 + 15) = unat sz + 31" using assms by (simp add: unat_word_ariths)
    have 2: "unat ((sz + 16 + 15) div 16) = (unat sz + 31) div 16" using 1 by (simp add: unat_div)
    have 3: "unat (16 * ((sz + 16 + 15) div 16)) = 16 * ((unat sz + 31) div 16)"
      using 2 assms by (simp add: unat_word_ariths)
    have "unat sz + 31 = unat sz + 15 + 16" by simp
    then have "(unat sz + 31) div 16 = (unat sz + 15) div 16 + 1"
      by (simp only: div_add_self2 [of 16 "unat sz + 15"] zero_neq_numeral not_False_eq_True)
    then have 4: "16 * ((unat sz + 31) div 16) = (unat sz + 15) div 16 * 16 + 16"
      by (simp only: distrib_left mult.commute mult_1)
    show ?thesis
      using False 3 4 by (simp add: adjust_size_def DSIZE_def OVERHEAD_def word_le_nat_alt)
  qed
  show "unat (adjust_size sz) = (if unat sz \<le> 16 then 32 else (unat sz + 15) div 16 * 16 + 16)"
    by (rule e)
  have m: "(unat sz + 15) mod 16 < 16" by simp
  have "(unat sz + 15) div 16 * 16 + (unat sz + 15) mod 16 = unat sz + 15"
    by (rule div_mult_mod_eq)
  with m have le: "unat sz \<le> (unat sz + 15) div 16 * 16" by linarith
  show "32 \<le> unat (adjust_size sz)" unfolding e using le by simp
  show "16 dvd unat (adjust_size sz)" unfolding e by simp
  show "unat sz + 16 \<le> unat (adjust_size sz)" unfolding e using le by simp
qed

lemma max_size_nat:
  assumes "A < 2 ^ 64"
  shows "max_size (of_nat A) CHUNKSIZE = of_nat (max A 4096)"
proof -
  have "((4096 :: 64 word) < of_nat A) = (4096 < A)"
    using of_nat_less_iff64 [of 4096 A] assms by simp
  then show ?thesis by (simp add: max_size_def CHUNKSIZE_def max_def)
qed

lemma mm_malloc_inv:
  assumes i: "heap_inv s hp bs fl" and sz: "sz \<noteq> 0" "unat sz \<le> 2 ^ 64 - 32"
  shows "\<exists>p s' bs' fl'. mm_malloc sz s = Some (p, s') \<and> heap_inv s' hp bs' fl' \<and>
           (p = NULL \<and> s' = s \<and> bs' = bs \<and> fl' = fl \<or>
            (\<exists>K xs c ys. p = ptr K \<and> bs' = xs @ (c, True) # ys \<and> K = hp + 32 + total xs
               \<and> unat sz + 16 \<le> c
               \<and> K \<notin> set (alloc_addrs (hp + 32) bs)
               \<and> set (alloc_addrs (hp + 32) bs') = insert K (set (alloc_addrs (hp + 32) bs))))"
proof -
  define A where "A = unat (adjust_size sz)"
  note af = adjust_size_facts [OF sz, folded A_def]
  have as: "adjust_size sz = of_nat A" by (simp add: A_def)
  have A64: "A < 2 ^ 64"
    unfolding A_def using unsigned_less [of "adjust_size sz", where 'a = nat] by simp
  have l: "lay s hp bs" and ls: "lst s hp fl" and fl: "set fl = set (free_addrs (hp + 32) bs)"
    using i by (auto simp: heap_inv_def)
  note ff = find_fit_from_chain [OF inv_chain [OF i], of "of_nat A"]
  have place_case: "\<exists>p s' bs' fl'. Some (ptr K, place (ptr K) (of_nat A) s1) = Some (p, s')
           \<and> heap_inv s' hp bs' fl' \<and>
           (p = NULL \<and> s' = s \<and> bs' = bs \<and> fl' = fl \<or>
            (\<exists>K xs c ys. p = ptr K \<and> bs' = xs @ (c, True) # ys \<and> K = hp + 32 + total xs
               \<and> unat sz + 16 \<le> c
               \<and> K \<notin> set (alloc_addrs (hp + 32) bs)
               \<and> set (alloc_addrs (hp + 32) bs') = insert K (set (alloc_addrs (hp + 32) bs))))"
    if i1: "heap_inv s1 hp (xs @ (n, False) # ys) fl1" and K: "K = hp + 32 + total xs" and An: "A \<le> n"
      and aa: "alloc_addrs (hp + 32) (xs @ (n, False) # ys) = alloc_addrs (hp + 32) bs"
    for s1 xs n ys fl1 K
  proof -
    from place_inv [OF i1 K af(1,2) An] obtain c ys1 fl' where
      p: "heap_inv (place (ptr K) (of_nat A) s1) hp (xs @ (c, True) # ys1) fl'" "A \<le> c"
        "set (alloc_addrs (hp + 32) (xs @ (c, True) # ys1))
           = insert K (set (alloc_addrs (hp + 32) (xs @ (n, False) # ys)))"
        "K \<notin> set (alloc_addrs (hp + 32) (xs @ (n, False) # ys))"
      by blast
    have "\<exists>K' xs' c' ys'. ptr K = ptr K' \<and> xs @ (c, True) # ys1 = xs' @ (c', True) # ys'
            \<and> K' = hp + 32 + total xs' \<and> unat sz + 16 \<le> c'
            \<and> K' \<notin> set (alloc_addrs (hp + 32) bs)
            \<and> set (alloc_addrs (hp + 32) (xs @ (c, True) # ys1))
                = insert K' (set (alloc_addrs (hp + 32) bs))"
      by (insert p(1,2) p(3,4) [unfolded aa] K af(3)) (rule exI [of _ K], rule exI [of _ xs], rule exI [of _ c],
          rule exI [of _ ys1], simp)
    then show ?thesis using p(1) by blast
  qed
  show ?thesis
  proof (cases "first_fit s (of_nat A) (map ptr fl)")
    case (Some bp)
    from first_fit_SomeD [OF Some] obtain K where
      K: "K \<in> set fl" "bp = ptr K" "of_nat A \<le> GET_SIZE s (HDRP (ptr K))"
      by blast
    from K(1) fl free_split [of K "hp + 32" bs] obtain xs n ys where
      bs: "bs = xs @ (n, False) # ys" "K = hp + 32 + total xs"
      by blast
    note b = lay_block [OF l [unfolded bs(1)] bs(2)]
    have "GET_SIZE s (HDRP (ptr K)) = of_nat n"
      using b by (simp add: macro_ptr size_simps)
    then have An: "A \<le> n" using K(3) of_nat_le_iff64 [of A n] A64 b(7) by simp
    have nz: "ptr K \<noteq> NULL" using b by (simp add: NULL_def ptr_0_iff)
    have e: "mm_malloc sz s = Some (ptr K, place (ptr K) (of_nat A) s)"
      using sz(1) ff Some K(2) nz by (simp add: mm_malloc_def find_fit_def as Let_def)
    show ?thesis
      unfolding e by (rule place_case [OF i [unfolded bs(1)] bs(2) An]) (simp add: bs(1))
  next
    case None
    define E where "E = max A 4096"
    have E: "E < 2 ^ 64" "16 dvd E" "32 \<le> E" "A \<le> E"
      using A64 af(1,2) by (auto simp: E_def max_def)
    have ms: "max_size (of_nat A) CHUNKSIZE = of_nat E" unfolding E_def by (rule max_size_nat [OF A64])
    have e0: "mm_malloc sz s =
                Some (let (bp', s1) = extend_heap (of_nat E div 8) s
                      in if bp' = NULL then (NULL, s1) else (bp', place bp' (of_nat A) s1))"
      using sz(1) ff None
      by (simp add: mm_malloc_def find_fit_def as Let_def ms WSIZE_def split: prod.splits)
    show ?thesis
    proof (cases "unat (mem_brk s) + E \<le> unat (mem_max_addr s)")
      case False
      then have "extend_heap (of_nat E div 8) s = (NULL, s)"
        by (intro extend_heap_fail E) simp
      then have "mm_malloc sz s = Some (NULL, s)" unfolding e0 by simp
      then show ?thesis using i by blast
    next
      case True
      from extend_heap_inv [OF i E(1,2,3) True] obtain C xs0 c ys0 fl' where
        x: "extend_heap (of_nat E div 8) s = (ptr C, snd (extend_heap (of_nat E div 8) s))"
          "heap_inv (snd (extend_heap (of_nat E div 8) s)) hp (xs0 @ (c, False) # ys0) fl'"
          "C = hp + 32 + total xs0" "E \<le> c"
          "alloc_addrs (hp + 32) (xs0 @ (c, False) # ys0) = alloc_addrs (hp + 32) bs"
        by blast
      have lx: "lay (snd (extend_heap (of_nat E div 8) s)) hp (xs0 @ (c, False) # ys0)"
        using x(2) by (simp add: heap_inv_def)
      note b = lay_block [OF lx x(3)]
      have nz: "ptr C \<noteq> NULL" using b by (simp add: NULL_def ptr_0_iff)
      have e: "mm_malloc sz s
                 = Some (ptr C, place (ptr C) (of_nat A) (snd (extend_heap (of_nat E div 8) s)))"
        unfolding e0 by (subst x(1)) (simp add: nz)
      have Ac: "A \<le> c" using E(4) x(4) by simp
      show ?thesis unfolding e by (rule place_case [OF x(2,3) Ac x(5)])
    qed
  qed
qed

lemma init_state_PUT:
  assumes "mem_brk s = ptr hp"
  shows "init_state s =
           PUT (ptr hp) (ptr (hp + 32)) (PUT (ptr (hp + 40)) 0 (PUT (ptr (hp + 32)) 0
             (PUT (ptr (hp + 4112)) 4096 (PUT (ptr (hp + 4120)) 1 (PUT (ptr (hp + 24)) 4096
               (PUT (ptr (hp + 16)) 17 (PUT (ptr (hp + 8)) 17
                 (s\<lparr>heap_start := ptr (hp + 16), mem_brk := ptr (hp + 4128),
                    grow_calls := Suc (Suc (grow_calls s))\<rparr>))))))))"
  by (simp add: init_state_def PUT_def assms ptr_add_num [symmetric])

lemma mv_heap_start [simp]: "mv (s\<lparr>heap_start := h\<rparr>) = mv s"
  by (simp add: mv_def fun_eq_iff)

lemma init_inv:
  assumes i: "mm_init s = (0, s1)" and mx: "unat (mem_max_addr s) \<le> 2 ^ 63"
    and hp: "hp = unat (mem_brk s)"
  shows "heap_inv s1 hp [(4096, False)] [hp + 32]"
proof -
  note f = mm_init_success [OF i]
  have pb: "mem_brk s = ptr hp" by (simp add: hp)
  have bd: "hp + 4128 \<le> 2 ^ 63" using f(4) mx hp by simp
  note eq = init_state_PUT [OF pb]
  have m: "mv s1 = (mv s)(hp + 8 := 17, hp + 16 := 17, hp + 24 := 4096, hp + 4120 := 1,
                          hp + 4112 := 4096, hp + 32 := 0, hp + 40 := 0, hp := ptr (hp + 32))"
    unfolding f(1) eq using bd by (simp add: mv_PUT)
  have fs: "heap_start s1 = ptr (hp + 16)" "mem_brk s1 = ptr (hp + 4128)"
    "mem_max_addr s1 = mem_max_addr s"
    unfolding f(1) eq by simp_all
  have ub: "unat (ptr (hp + 4128)) = hp + 4128" using bd by (intro unat_ptr) simp
  have t: "tag 4096 False = 4096" by (simp add: tag_False)
  have "lay s1 hp [(4096, False)]"
    unfolding lay_def fs ub using f(4) mx hp by (simp add: m t)
  moreover have "lst s1 hp [hp + 32]" unfolding lst_def by (simp add: m)
  ultimately show ?thesis by (simp add: heap_inv_def)
qed

lemma store_inv:
  assumes i: "heap_inv s hp (xs @ (n, True) # ys) fl" and K: "K = hp + 32 + total xs"
    and off: "off < GET_SIZE s (HDRP (ptr K)) - DSIZE" "off mod 8 = 0"
  shows "heap_inv (PUT (PADD (ptr K) off) v s) hp (xs @ (n, True) # ys) fl"
proof -
  let ?bs = "xs @ (n, True) # ys"
  have l: "lay s hp ?bs" and ls: "lst s hp fl" and fl: "set fl = set (free_addrs (hp + 32) ?bs)"
    and naf: "no_adj_free ?bs"
    using i by (auto simp: heap_inv_def)
  note b = lay_block [OF l K]
  have gs: "GET_SIZE s (HDRP (ptr K)) = of_nat n" using b by (simp add: macro_ptr size_simps)
  have "(of_nat n :: 64 word) - 16 = of_nat (n - 16)" using b(3) by (simp add: of_nat_diff)
  then have "unat (GET_SIZE s (HDRP (ptr K)) - DSIZE) = n - 16"
    using b(7) by (simp add: gs DSIZE_def unat_of_nat)
  then have o1: "unat off < n - 16" using off(1) by (simp add: word_less_nat_alt)
  have "unat off mod 8 = 0" using off(2) unat_mod [of off 8] by simp
  then obtain q where q: "unat off = 8 * q" by (auto simp: mod_eq_0_iff_dvd dvd_def)
  obtain r where r: "n = 16 * r" using b(4) by (auto simp: dvd_def)
  define j where "j = K + unat off"
  have "8 * q < 16 * r - 16" using o1 q r by simp
  then have "q + 3 \<le> 2 * r" by presburger
  then have "unat off + 24 \<le> n" using q r by simp
  then have jb: "K \<le> j" "j + 24 \<le> K + n" "j < 2 ^ 64" using b(7) by (auto simp: j_def)
  have pj: "PADD (ptr K) off = ptr j"
    using ptr_add [of K "unat off"] by (simp add: PADD_def j_def)
  have na: "j \<notin> set (atags hp ?bs)"
    using atags_cases [OF b(9) _ K, of j] jb by auto
  have sub: "set fl \<subseteq> set (addrs (hp + 32) ?bs)" using fl free_addrs_subset by blast
  have Kn: "K \<notin> set fl" unfolding fl fa_mid using mid_not_alloc(3,4) [OF b(9) K] by simp
  have oth: "\<forall>u \<in> set fl. u + 32 \<le> K \<or> K + n \<le> u"
    using sub Kn addrs_cases [OF b(9) _ K] by blast
  have nl: "j \<notin> links fl" by (rule range_not_link [OF oth]) (use jb in auto)
  have "lay (PUT (ptr j) v s) hp ?bs" by (rule lay_PUT [OF l na jb(3)])
  moreover have "lst (PUT (ptr j) v s) hp fl"
    using jb b(5) by (intro lst_PUT_links ls nl) auto
  ultimately show ?thesis unfolding pj using fl naf by (simp add: heap_inv_def)
qed

lemma lay_addr_bound:
  assumes "lay s hp bs" "u \<in> set (addrs (hp + 32) bs)"
  shows "0 < u" "u < 2 ^ 64"
  using spaced_mem [OF lay_spaced [OF assms(1)] assms(2)] by auto

lemma ptr_image_remove:
  assumes l: "lay s hp (xs @ (n, True) # ys)" and K: "K = hp + 32 + total xs"
  shows "ptr ` set (alloc_addrs (hp + 32) (xs @ (n, True) # ys)) - {ptr K}
           = ptr ` set (alloc_addrs (hp + 32) (xs @ (n, False) # ys))"
proof -
  have sz: "sized (xs @ (n, True) # ys)" using l by (simp add: lay_def)
  note nk = mid_not_alloc(1,2) [OF sz K]
  have bK: "K < 2 ^ 64" using lay_addr_bound [OF l, of K] K by simp
  have ne: "ptr u \<noteq> ptr K"
    if "u \<in> set (alloc_addrs (hp + 32) xs) \<union> set (alloc_addrs (hp + 32 + total xs + n) ys)" for u
  proof -
    have "u \<in> set (addrs (hp + 32) (xs @ (n, True) # ys))"
      using that alloc_addrs_in_addrs [of u "hp + 32" xs]
        alloc_addrs_in_addrs [of u "hp + 32 + total xs + n" ys] by auto
    then have "u < 2 ^ 64" by (rule lay_addr_bound(2) [OF l])
    moreover have "u \<noteq> K" using that nk by auto
    ultimately show ?thesis using bK by (simp add: ptr_eq_iff)
  qed
  show ?thesis using ne K by auto
qed

theorem reach_inv:
  "reach s L \<Longrightarrow> \<exists>hp bs fl. heap_inv s hp bs fl \<and> L = ptr ` set (alloc_addrs (hp + 32) bs)"
proof (induction rule: reach.induct)
  case (init s0 s)
  from init_inv [OF init refl] show ?case by (intro exI conjI) auto
next
  case (malloc s L sz p s')
  then obtain hp bs fl where i: "heap_inv s hp bs fl" and L: "L = ptr ` set (alloc_addrs (hp + 32) bs)"
    by blast
  show ?case
  proof (cases "sz = 0")
    case True
    then have "p = NULL" "s' = s" using malloc.hyps(3) by (simp_all add: mm_malloc_def)
    then show ?thesis using i L by auto
  next
    case False
    from mm_malloc_inv [OF i False malloc.hyps(2)] obtain p2 s2 bs' fl' where
      r0: "mm_malloc sz s = Some (p2, s2)" "heap_inv s2 hp bs' fl'"
        "p2 = NULL \<and> s2 = s \<and> bs' = bs \<and> fl' = fl \<or>
         (\<exists>K xs c ys. p2 = ptr K \<and> bs' = xs @ (c, True) # ys \<and> K = hp + 32 + total xs
            \<and> unat sz + 16 \<le> c \<and> K \<notin> set (alloc_addrs (hp + 32) bs)
            \<and> set (alloc_addrs (hp + 32) bs') = insert K (set (alloc_addrs (hp + 32) bs)))"
      by blast
    have ps: "p2 = p" "s2 = s'" using r0(1) malloc.hyps(3) by simp_all
    note r = r0(2,3) [unfolded ps]
    from r(2) show ?thesis
    proof
      assume "p = NULL \<and> s' = s \<and> bs' = bs \<and> fl' = fl"
      then show ?thesis using i L by auto
    next
      assume "\<exists>K xs c ys. p = ptr K \<and> bs' = xs @ (c, True) # ys \<and> K = hp + 32 + total xs
            \<and> unat sz + 16 \<le> c \<and> K \<notin> set (alloc_addrs (hp + 32) bs)
            \<and> set (alloc_addrs (hp + 32) bs') = insert K (set (alloc_addrs (hp + 32) bs))"
      then obtain K xs c ys where
        k: "p = ptr K" "bs' = xs @ (c, True) # ys" "K = hp + 32 + total xs"
          "set (alloc_addrs (hp + 32) bs') = insert K (set (alloc_addrs (hp + 32) bs))"
        by blast
      have l': "lay s' hp bs'" using r(1) by (simp add: heap_inv_def)
      have "K \<in> set (addrs (hp + 32) bs')" unfolding k(2) using k(3) by simp
      from lay_addr_bound [OF l' this] have "p \<noteq> NULL" by (simp add: k(1) NULL_def ptr_0_iff)
      then show ?thesis using r(1) k(1,4) L by (intro exI [of _ hp] exI [of _ bs'] exI [of _ fl']) simp
    qed
  qed
next
  case (free s L p)
  then obtain hp bs fl where i: "heap_inv s hp bs fl" and L: "L = ptr ` set (alloc_addrs (hp + 32) bs)"
    by blast
  from free.hyps(2) L obtain K where K: "K \<in> set (alloc_addrs (hp + 32) bs)" "p = ptr K" by blast
  from alloc_split [OF K(1)] obtain xs n ys where
    bs: "bs = xs @ (n, True) # ys" "K = hp + 32 + total xs"
    by blast
  have l: "lay s hp (xs @ (n, True) # ys)" using i bs(1) by (simp add: heap_inv_def)
  from mm_free_inv [OF i [unfolded bs(1)] bs(2)] obtain xs0 c ys0 fl' where
    r: "heap_inv (mm_free (ptr K) s) hp (xs0 @ (c, False) # ys0) fl'"
      "alloc_addrs (hp + 32) (xs0 @ (c, False) # ys0) = alloc_addrs (hp + 32) (xs @ (n, False) # ys)"
    by blast
  have "L - {p} = ptr ` set (alloc_addrs (hp + 32) (xs0 @ (c, False) # ys0))"
    unfolding r(2) L K(2) bs(1) by (rule ptr_image_remove [OF l bs(2)])
  then show ?case using r(1) K(2) by blast
next
  case (store s L p off v)
  then obtain hp bs fl where i: "heap_inv s hp bs fl" and L: "L = ptr ` set (alloc_addrs (hp + 32) bs)"
    by blast
  from store.hyps(2) L obtain K where K: "K \<in> set (alloc_addrs (hp + 32) bs)" "p = ptr K" by blast
  from alloc_split [OF K(1)] obtain xs n ys where
    bs: "bs = xs @ (n, True) # ys" "K = hp + 32 + total xs"
    by blast
  have "heap_inv (PUT (PADD (ptr K) off) v s) hp (xs @ (n, True) # ys) fl"
    using store.hyps(3,4) by (intro store_inv [OF i [unfolded bs(1)] bs(2)]) (simp_all add: K(2))
  then show ?case using L bs(1) K(2) by blast
qed

lemma block_words:
  assumes l: "lay s hp (xs @ (n, a) # ys)" and K: "K = hp + 32 + total xs"
  shows "GET s (HDRP (ptr K)) = tag n a" "GET s (FTRP s (ptr K)) = tag n a"
    "NEXT_BLKP s (ptr K) = ptr (K + n)" "GET_SIZE s (HDRP (ptr K)) = of_nat n"
    "GET_ALLOC s (HDRP (ptr K)) = (if a then 1 else 0)"
proof -
  note b = lay_block [OF l K]
  have bd: "8 \<le> K" "K - 8 < 2 ^ 64" "16 \<le> n" "K + n - 16 < 2 ^ 64" using b by auto
  show "GET s (HDRP (ptr K)) = tag n a" using bd b(1) by (simp add: macro_ptr GET_ptr)
  show "GET_SIZE s (HDRP (ptr K)) = of_nat n" using bd b(1,4) by (simp add: macro_ptr size_simps)
  then show "GET s (FTRP s (ptr K)) = tag n a"
    using bd b(2) by (simp add: FTRP_def PADD_def DSIZE_def ptr_add_sub16 GET_ptr)
  show "NEXT_BLKP s (ptr K) = ptr (K + n)"
    using bd b(1,4) by (simp add: NEXT_BLKP_def PADD_def macro_ptr size_simps ptr_add)
  show "GET_ALLOC s (HDRP (ptr K)) = (if a then 1 else 0)"
    using bd b(1,4) by (simp add: macro_ptr alloc_simps)
qed

lemma inv_head:
  assumes "heap_inv s hp bs (x # fl)"
  shows "HEAD s = ptr x"
proof -
  have l: "lay s hp bs" and ls: "lst s hp (x # fl)" using assms by (auto simp: heap_inv_def)
  have hs: "heap_start s = ptr (hp + 16)" "hp + 16 < 2 ^ 64"
    using l lay_bound [OF l] by (auto simp: lay_def)
  show ?thesis unfolding head_ptr(1) [OF hs] using ls by (simp add: lst_def)
qed

lemma place_inv_exact:
  assumes i: "heap_inv s hp (xs @ (S, False) # ys) fl" and K: "K = hp + 32 + total xs"
    and A: "32 \<le> A" "16 dvd A" "A \<le> S"
  shows "if S - A < 32
         then heap_inv (place (ptr K) (of_nat A) s) hp (xs @ (S, True) # ys) (remove1 K fl)
         else heap_inv (place (ptr K) (of_nat A) s) hp (xs @ (A, True) # (S - A, False) # ys)
                ((K + A) # remove1 K fl)"
proof -
  let ?bs = "xs @ (S, False) # ys"
  have l: "lay s hp ?bs" and ls: "lst s hp fl" and fl: "set fl = set (free_addrs (hp + 32) ?bs)"
    and naf: "no_adj_free ?bs"
    using i by (auto simp: heap_inv_def)
  have sub: "set fl \<subseteq> set (addrs (hp + 32) ?bs)" using fl free_addrs_subset by blast
  have Kfl: "K \<in> set fl" unfolding fl fa_mid using K by simp
  have dl: "distinct fl" using ls by (simp add: lst_def)
  have sz: "sized ?bs" using l by (simp add: lay_def)
  note nk = mid_not_alloc [OF sz K]
  have nf: "no_adj_free xs" "no_adj_free ys" "xs = [] \<or> snd (last xs)" "ys = [] \<or> snd (hd ys)"
    using naf by (auto simp: naf_mid_free)
  define d where "d = S - A"
  have nd: "S = A + d" using A by (simp add: d_def)
  have setr: "set (remove1 K fl) = set (free_addrs (hp + 32) xs)
               \<union> set (free_addrs (hp + 32 + total xs + S) ys)"
    unfolding set_remove1_eq [OF dl] fl fa_mid using nk(3,4) K by auto
  show ?thesis
  proof (cases "d < 32")
    case True
    have "lay (place (ptr K) (of_nat A) s) hp (xs @ (S, True) # ys)"
      "lst (place (ptr K) (of_nat A) s) hp (remove1 K fl)"
      by (rule place_nosplit_inv [OF l ls sub K Kfl nd True])+
    moreover have "set (remove1 K fl) = set (free_addrs (hp + 32) (xs @ (S, True) # ys))"
      unfolding setr fa_mid by simp
    moreover have "no_adj_free (xs @ (S, True) # ys)" using nf by (simp add: naf_mid_alloc)
    ultimately show ?thesis using True by (simp add: heap_inv_def d_def)
  next
    case False
    then have d32: "32 \<le> d" by simp
    let ?new = "xs @ (A, True) # (d, False) # ys"
    let ?fl = "(K + A) # remove1 K fl"
    have "lay (place (ptr K) (of_nat A) s) hp ?new" "lst (place (ptr K) (of_nat A) s) hp ?fl"
      by (rule place_split_inv [OF l ls sub K Kfl nd d32 A(1,2)])+
    moreover have "set ?fl = set (free_addrs (hp + 32) ?new)"
      unfolding list.set setr fa_mid by (simp add: K nd add.assoc)
    moreover have "no_adj_free ?new" using nf by (auto simp: naf_append naf_Cons)
    ultimately show ?thesis using False by (simp add: heap_inv_def d_def)
  qed
qed

lemma total_dvd: "sized bs \<Longrightarrow> 16 dvd total bs"
  by (induction bs) (auto simp: sized_def)

lemma sized_appendD: "sized (xs @ ys) \<Longrightarrow> sized xs"
  by (simp add: sized_def)

lemma adjust_size_dvd: "16 dvd unat (adjust_size sz)"
proof (cases "sz \<le> DSIZE")
  case True
  then show ?thesis by (simp add: adjust_size_def DSIZE_def OVERHEAD_def)
next
  case False
  define w where "w = (sz + OVERHEAD + (DSIZE - 1)) div DSIZE"
  have "unat (16 * w) = (16 * unat w) mod 2 ^ 64" by (simp add: unat_word_ariths)
  moreover have "(16::nat) dvd 2 ^ 64" by simp
  ultimately have "16 dvd unat (16 * w)" by (simp add: dvd_mod)
  then show ?thesis using False by (simp add: adjust_size_def w_def DSIZE_def)
qed

lemma prev_alloc_shape:
  assumes l: "lay s hp (xs @ (n, a) # ys)" and K: "K = hp + 32 + total xs"
    and pa: "GET_ALLOC s (HDRP (PREV_BLKP s (ptr K))) \<noteq> 0"
  shows "xs = [] \<or> (\<exists>xs' m. xs = xs' @ [(m, True)])"
proof -
  note b = lay_block [OF l K]
  from prev_info [OF l K] obtain m ap where
    p: "mv s (K - 16) = tag m ap" "mv s (K - m - 8) = tag m ap" "16 dvd m" "16 \<le> m"
      "hp + 16 + m \<le> K"
      "if ap then xs = [] \<or> (\<exists>xs'. xs = xs' @ [(m, True)]) else \<exists>xs'. xs = xs' @ [(m, False)]"
    by blast
  have bd: "K - 16 < 2 ^ 64" "K - m - 8 < 2 ^ 64" "m \<le> K" "8 \<le> K - m" "16 \<le> K"
    using b p by auto
  have pb: "PREV_BLKP s (ptr K) = ptr (K - m)"
    using bd p by (simp add: PREV_BLKP_def PSUB_def DSIZE_def ptr_sub_num macro_ptr size_simps ptr_sub)
  have "GET_ALLOC s (HDRP (PREV_BLKP s (ptr K))) = (if ap then 1 else 0)"
    using bd p unfolding pb by (simp add: macro_ptr alloc_simps)
  then have ap using pa by (cases ap) auto
  then show ?thesis using p(6) by auto
qed

lemma malloc_result_aligned:
  assumes i: "heap_inv s hp bs fl" and m: "mm_malloc sz s = Some (p, s')" and p: "p \<noteq> NULL"
  shows "\<exists>K. p = ptr K \<and> hp + 32 \<le> K \<and> K < 2 ^ 64 \<and> 16 dvd (K - hp)"
proof -
  define A where "A = unat (adjust_size sz)"
  have as: "adjust_size sz = of_nat A" by (simp add: A_def)
  have A64: "A < 2 ^ 64"
    unfolding A_def using unsigned_less [of "adjust_size sz", where 'a = nat] by simp
  have Ad: "16 dvd A" unfolding A_def by (rule adjust_size_dvd)
  have l: "lay s hp bs" and fl: "set fl = set (free_addrs (hp + 32) bs)"
    using i by (auto simp: heap_inv_def)
  have sz0: "sz \<noteq> 0" using m p by (auto simp: mm_malloc_def NULL_def)
  have al: "\<exists>K. q = ptr K \<and> hp + 32 \<le> K \<and> K < 2 ^ 64 \<and> 16 dvd (K - hp)"
    if l1: "lay s1 hp bs1" and K: "K \<in> set (addrs (hp + 32) bs1)" and q: "q = ptr K"
    for s1 bs1 K q
  proof -
    from addrs_split [OF K] obtain xs n a ys where
      s: "bs1 = xs @ (n, a) # ys" "K = hp + 32 + total xs" by blast
    have "sized xs" using l1 s(1) by (simp add: lay_def sized_def)
    then have "16 dvd total xs" by (rule total_dvd)
    then have "16 dvd (K - hp)" unfolding s(2) by simp
    then show ?thesis using lay_addr_bound [OF l1 K] s(2) q by auto
  qed
  note ff = find_fit_from_chain [OF inv_chain [OF i], of "of_nat A"]
  show ?thesis
  proof (cases "first_fit s (of_nat A) (map ptr fl)")
    case (Some bp)
    from first_fit_SomeD [OF Some] obtain K where K: "K \<in> set fl" "bp = ptr K" by blast
    have nn: "bp \<noteq> NULL" by (rule first_fit_Some_neq_NULL [OF inv_chain [OF i] Some])
    have "p = bp" using m sz0 nn ff Some by (simp add: mm_malloc_def find_fit_def as Let_def)
    moreover have "K \<in> set (addrs (hp + 32) bs)" using K(1) fl free_addrs_subset by blast
    ultimately show ?thesis using al [OF l _ K(2)] by simp
  next
    case None
    define E where "E = max A 4096"
    have E: "E < 2 ^ 64" "16 dvd E" "32 \<le> E" using A64 Ad by (auto simp: E_def max_def)
    have ms: "max_size (of_nat A) CHUNKSIZE = of_nat E"
      unfolding E_def by (rule max_size_nat [OF A64])
    have mm: "mm_malloc sz s =
        (let (bp', s1) = extend_heap (of_nat E div 8) s
         in if bp' = NULL then Some (NULL, s1) else Some (bp', place bp' (of_nat A) s1))"
      using sz0 ff None by (simp add: mm_malloc_def find_fit_def as Let_def ms WSIZE_def)
    show ?thesis
    proof (cases "unat (mem_brk s) + E \<le> unat (mem_max_addr s)")
      case True
      from extend_heap_inv [OF i E True] obtain C xs0 c ys0 fl' where
        e: "extend_heap (of_nat E div 8) s = (ptr C, snd (extend_heap (of_nat E div 8) s))"
          "heap_inv (snd (extend_heap (of_nat E div 8) s)) hp (xs0 @ (c, False) # ys0) fl'"
          "C = hp + 32 + total xs0"
        by blast
      have l1: "lay (snd (extend_heap (of_nat E div 8) s)) hp (xs0 @ (c, False) # ys0)"
        using e(2) by (simp add: heap_inv_def)
      have Cin: "C \<in> set (addrs (hp + 32) (xs0 @ (c, False) # ys0))" using e(3) by simp
      have "p = ptr C" using m p unfolding mm by (subst (asm) e(1)) (auto simp: NULL_def split: if_splits)
      then show ?thesis using al [OF l1 Cin] by simp
    next
      case False
      then have "extend_heap (of_nat E div 8) s = (NULL, s)"
        by (intro extend_heap_fail E) simp
      then show ?thesis using m p unfolding mm by simp
    qed
  qed
qed

lemma free_then_malloc:
  assumes i: "heap_inv s hp (xs @ (n, True) # ys) fl" and K: "K = hp + 32 + total xs"
    and pa: "xs = [] \<or> snd (last xs)" and sz: "sz \<noteq> 0" "unat sz + 16 \<le> n"
  shows "\<exists>s'. mm_malloc sz (mm_free (ptr K) s) = Some (ptr K, s')"
proof -
  have l: "lay s hp (xs @ (n, True) # ys)" using i by (simp add: heap_inv_def)
  note b = lay_block [OF l K]
  from b(4) obtain q where q: "n = 16 * q" by (auto simp: dvd_def)
  have n64: "n < 2 ^ 64" using b by simp
  have szb: "unat sz \<le> 2 ^ 64 - 32" using sz(2) n64 q by simp
  define A where "A = unat (adjust_size sz)"
  note af = adjust_size_facts [OF sz(1) szb, folded A_def]
  have as: "adjust_size sz = of_nat A" by (simp add: A_def)
  have q1: "1 \<le> q" using b(3) q by simp
  have u: "unat sz + 15 \<le> 16 * (q - 1) + 15" using sz(2) q q1 by simp
  have "(unat sz + 15) div 16 \<le> (16 * (q - 1) + 15) div 16" by (rule div_le_mono [OF u])
  also have "\<dots> = q - 1" by simp
  finally have "(unat sz + 15) div 16 * 16 + 16 \<le> 16 * q" using q1 by simp
  then have An: "A \<le> n" using af(4) b(3) q by (simp split: if_splits)
  from mm_free_inv [OF i K] pa obtain c ys0 fl' where
    f: "heap_inv (mm_free (ptr K) s) hp (xs @ (c, False) # ys0) fl'" "n \<le> c" "K \<in> set fl'" "hd fl' = K"
    by auto
  let ?s = "mm_free (ptr K) s"
  obtain r where fl': "fl' = K # r" using f(3,4) by (cases fl') auto
  have l1: "lay ?s hp (xs @ (c, False) # ys0)" using f(1) by (simp add: heap_inv_def)
  note b1 = lay_block [OF l1 K]
  have c64: "c < 2 ^ 64" using b1 by simp
  have A64: "A < 2 ^ 64" using An n64 by simp
  have "GET_SIZE ?s (HDRP (ptr K)) = of_nat c" by (rule block_words(4) [OF l1 K])
  moreover have "(of_nat A :: 64 word) \<le> of_nat c"
    using of_nat_le_iff64 [OF A64 c64] An f(2) by simp
  ultimately have "first_fit ?s (of_nat A) (map ptr fl') = Some (ptr K)"
    by (simp add: first_fit_def fl')
  then have ff: "find_fit (of_nat A) ?s = Some (ptr K)"
    using find_fit_from_chain [OF inv_chain [OF f(1)], of "of_nat A"] by (simp add: find_fit_def)
  have "ptr K \<noteq> NULL" using b n64 ptr_0_iff [of K] by (simp add: NULL_def)
  then show ?thesis using sz(1) ff by (simp add: mm_malloc_def as Let_def)
qed

lemma adjust_wrap_examples:
  "adjust_size 0xFFFFFFFFFFFFFFEC = 0" "adjust_size 0xFFFFFFFFFFFFFFFF = 16"
  by (simp_all add: adjust_size_def DSIZE_def OVERHEAD_def)

lemma overflow_heap_eq:
  "overflow_heap =
     \<lparr>mem = (\<lambda>_. 0)
        (4104 := 17, 8216 := 1, 8208 := 4096, 4128 := 0, 4136 := 0, 4096 := 4128,
         4120 := 1, 4112 := 1),
      mem_brk = 8224, mem_max_addr = 1052672, grow_calls = 2, heap_start = 4112\<rparr>"
  and overflow_heap_call: "mm_malloc 0xFFFFFFFFFFFFFFEC example_heap = Some (0x1020, overflow_heap)"
proof -
  have h: "HEAD example_heap = 0x1020" "GET_SIZE example_heap (HDRP 0x1020) = 4096"
    by (simp_all add: example_heap_eq init_state_def example_region_def macro_defs)
  have m: "mm_malloc 0xFFFFFFFFFFFFFFEC example_heap = Some (0x1020, place 0x1020 0 example_heap)"
    using mm_malloc_head [of "0xFFFFFFFFFFFFFFEC" example_heap] h by (simp add: adjust_wrap_examples adjust_examples NULL_def)
  show "overflow_heap =
     \<lparr>mem = (\<lambda>_. 0)
        (4104 := 17, 8216 := 1, 8208 := 4096, 4128 := 0, 4136 := 0, 4096 := 4128,
         4120 := 1, 4112 := 1),
      mem_brk = 8224, mem_max_addr = 1052672, grow_calls = 2, heap_start = 4112\<rparr>"
    unfolding overflow_heap_def m by (simp add: example_heap_eq init_state_def example_region_def op_defs macro_defs)
  show "mm_malloc 0xFFFFFFFFFFFFFFEC example_heap = Some (0x1020, overflow_heap)" by (simp add: overflow_heap_def m)
qed

lemma wrap_a_eq:
  "wrap_a =
     \<lparr>mem = (\<lambda>_. 0)
        (4104 := 17, 4112 := 17, 8216 := 1, 8208 := 4080, 4136 := 4080, 4144 := 0,
         4152 := 0, 4096 := 4144, 4120 := 17, 4128 := 17),
      mem_brk = 8224, mem_max_addr = 1052672, grow_calls = 2, heap_start = 4112\<rparr>"
  and wrap_a_call: "mm_malloc 0xFFFFFFFFFFFFFFFF example_heap = Some (0x1020, wrap_a)"
proof -
  have h: "HEAD example_heap = 0x1020" "GET_SIZE example_heap (HDRP 0x1020) = 4096"
    by (simp_all add: example_heap_eq init_state_def example_region_def macro_defs)
  have m: "mm_malloc 0xFFFFFFFFFFFFFFFF example_heap = Some (0x1020, place 0x1020 16 example_heap)"
    using mm_malloc_head [of "0xFFFFFFFFFFFFFFFF" example_heap] h by (simp add: adjust_wrap_examples adjust_examples NULL_def)
  show "wrap_a =
     \<lparr>mem = (\<lambda>_. 0)
        (4104 := 17, 4112 := 17, 8216 := 1, 8208 := 4080, 4136 := 4080, 4144 := 0,
         4152 := 0, 4096 := 4144, 4120 := 17, 4128 := 17),
      mem_brk = 8224, mem_max_addr = 1052672, grow_calls = 2, heap_start = 4112\<rparr>"
    unfolding wrap_a_def m by (simp add: example_heap_eq init_state_def example_region_def op_defs macro_defs)
  show "mm_malloc 0xFFFFFFFFFFFFFFFF example_heap = Some (0x1020, wrap_a)" by (simp add: wrap_a_def m)
qed

lemma wrap_b_eq:
  "wrap_b =
     \<lparr>mem = (\<lambda>_. 0)
        (4104 := 17, 4112 := 17, 8216 := 1, 4144 := 0, 4152 := 0, 4120 := 17,
         4128 := 17, 8208 := 4048, 4168 := 4048, 4176 := 0, 4184 := 0, 4096 := 4176,
         4136 := 33, 4160 := 33),
      mem_brk = 8224, mem_max_addr = 1052672, grow_calls = 2, heap_start = 4112\<rparr>"
  and wrap_b_call: "mm_malloc 16 wrap_a = Some (0x1030, wrap_b)"
proof -
  have h: "HEAD wrap_a = 0x1030" "GET_SIZE wrap_a (HDRP 0x1030) = 4080"
    by (simp_all add: wrap_a_eq macro_defs)
  have m: "mm_malloc 16 wrap_a = Some (0x1030, place 0x1030 32 wrap_a)"
    using mm_malloc_head [of 16 wrap_a] h by (simp add: adjust_wrap_examples adjust_examples NULL_def)
  show "wrap_b =
     \<lparr>mem = (\<lambda>_. 0)
        (4104 := 17, 4112 := 17, 8216 := 1, 4144 := 0, 4152 := 0, 4120 := 17,
         4128 := 17, 8208 := 4048, 4168 := 4048, 4176 := 0, 4184 := 0, 4096 := 4176,
         4136 := 33, 4160 := 33),
      mem_brk = 8224, mem_max_addr = 1052672, grow_calls = 2, heap_start = 4112\<rparr>"
    unfolding wrap_b_def m by (simp add: wrap_a_eq op_defs macro_defs)
  show "mm_malloc 16 wrap_a = Some (0x1030, wrap_b)" by (simp add: wrap_b_def m)
qed

lemma wrap_c_eq:
  "wrap_c =
     \<lparr>mem = (\<lambda>_. 0)
        (4104 := 17, 4112 := 17, 8216 := 1, 4144 := 0, 4152 := 0, 8208 := 4048,
         4168 := 4048, 4176 := 0, 4160 := 33, 4120 := 16, 4184 := 4128, 4128 := 4176,
         4136 := 0, 4096 := 4128),
      mem_brk = 8224, mem_max_addr = 1052672, grow_calls = 2, heap_start = 4112\<rparr>"
  unfolding wrap_c_def by (simp add: wrap_b_eq op_defs macro_defs)

lemma merged_heap_eq:
  "merged_heap =
     \<lparr>mem = (\<lambda>_. 0)
        (4104 := 17, 4112 := 17, 8216 := 1, 4256 := 0, 4264 := 0, 4248 := 33,
         4272 := 33, 7664 := 0, 7672 := 0, 7688 := 528, 7696 := 0, 7648 := 3376,
         7704 := 4288, 4120 := 128, 4240 := 128, 4296 := 4128, 4128 := 4288,
         4136 := 0, 4096 := 4128, 7680 := 32, 7656 := 32, 4288 := 0, 4280 := 3936,
         8208 := 3936),
      mem_brk = 8224, mem_max_addr = 1052672, grow_calls = 2, heap_start = 4112\<rparr>"
  unfolding merged_heap_def by (simp add: fit_heap_eq op_defs macro_defs)

lemma merged_heap_call:
  "mm_malloc 16 merged_heap = Some (0x1020, place 0x1020 32 merged_heap)"
proof -
  have h: "HEAD merged_heap = 0x1020" "GET_SIZE merged_heap (HDRP 0x1020) = 128"
    by (simp_all add: merged_heap_eq macro_defs)
  show ?thesis
    using mm_malloc_head [of 16 merged_heap] h by (simp add: adjust_examples NULL_def)
qed

lemma example_heap_inv: "heap_inv example_heap 4096 [(4096, False)] [4128]"
proof -
  have i: "mm_init example_region = (0, example_heap)"
    by (simp add: mm_init_example example_heap_eq)
  show ?thesis using init_inv [OF i, of 4096] by (simp add: example_region_def)
qed

lemma fit_heap_inv:
  "heap_inv fit_heap 4096 [(128, False), (32, True), (3376, False), (32, True), (528, False)]
     [4128, 4288, 7696]"
  by (simp add: heap_inv_def lay_def lst_def sized_def mv_def ptr_def tag_def PACK_def fit_heap_eq)

lemma reach_example_heaps:
  "reach example_heap {}"
  "reach heap_d {0x1df0, 0x10c0, 0x10a0, 0x1020}"
  "reach fit_heap {0x1df0, 0x10a0}"
proof -
  have i: "mm_init example_region = (0, example_heap)"
    by (simp add: mm_init_example example_heap_eq)
  show r0: "reach example_heap {}"
    by (rule reach.init [OF i]) (simp add: example_region_def)
  have ra: "reach heap_a {0x1020}"
    using reach.malloc [OF r0 _ heap_a_call] by (simp add: NULL_def)
  have rb: "reach heap_b {0x10a0, 0x1020}"
    using reach.malloc [OF ra _ heap_b_call] by (simp add: NULL_def)
  have rc: "reach heap_c {0x10c0, 0x10a0, 0x1020}"
    using reach.malloc [OF rb _ heap_c_call] by (simp add: NULL_def)
  show rd: "reach heap_d {0x1df0, 0x10c0, 0x10a0, 0x1020}"
    using reach.malloc [OF rc _ heap_d_call] by (simp add: NULL_def)
  have re: "reach heap_e {0x1df0, 0x10a0, 0x1020}"
    using reach.free [OF rd, of "0x10c0"] by (simp add: heap_e_def insert_Diff_if)
  show "reach fit_heap {0x1df0, 0x10a0}"
    using reach.free [OF re, of "0x1020"] by (simp add: fit_heap_def insert_Diff_if)
qed

lemma fit_heap_call:
  "mm_malloc 300 fit_heap = Some (0x10c0, place 0x10c0 320 fit_heap)"
proof -
  have "first_fit fit_heap 320 [0x1020, 0x10c0, 0x1e10] = Some 0x10c0"
    by (simp add: first_fit_def fit_heap_list)
  then have "find_fit 320 fit_heap = Some 0x10c0"
    using find_fit_from_chain [OF fit_heap_list(1), of 320] by (simp add: find_fit_def)
  then show ?thesis by (simp add: mm_malloc_def adjust_examples NULL_def)
qed

section \<open>Properties\<close>

text \<open>
  C5: a call of \<open>mm_malloc\<close> with size 0 returns \<open>NULL\<close> and leaves the whole allocator
  state as it was: memory, free list and region are untouched.
\<close>

theorem mm_malloc_zero: "mm_malloc 0 s = Some (NULL, s)"
  by (simp add: mm_malloc_def)

text \<open>
  C1: every request of a positive size is served first-fit. When the next-links from the
  head slot run through the blocks \<open>fl\<close>, \<open>mm_malloc\<close> returns the first block of \<open>fl\<close>
  whose header size is at least the adjusted size and places the request there, without
  growing the region; it asks \<open>extend_heap\<close> for more memory only when no block of \<open>fl\<close>
  passes the size test.
\<close>

theorem mm_malloc_first_fit:
  assumes "sz \<noteq> 0" and "chain (mem s) (HEAD s) fl"
  shows "case first_fit s (adjust_size sz) fl of
           Some bp \<Rightarrow> mm_malloc sz s = Some (bp, place bp (adjust_size sz) s)
                      \<and> grow_calls (place bp (adjust_size sz) s) = grow_calls s
                      \<and> mem_brk (place bp (adjust_size sz) s) = mem_brk s
         | None \<Rightarrow> mm_malloc sz s =
                     Some (let (bp', s1) = extend_heap (max_size (adjust_size sz) CHUNKSIZE div WSIZE) s
                           in if bp' = NULL then (NULL, s1) else (bp', place bp' (adjust_size sz) s1))"
proof (cases "first_fit s (adjust_size sz) fl")
  case None
  then show ?thesis
    using assms find_fit_from_chain [OF assms(2), of "adjust_size sz"]
    by (simp add: mm_malloc_def find_fit_def Let_def split: prod.splits)
next
  case (Some bp)
  then show ?thesis
    using assms find_fit_from_chain [OF assms(2), of "adjust_size sz"]
      first_fit_Some_neq_NULL [OF assms(2) Some]
    by (simp add: mm_malloc_def find_fit_def Let_def)
qed

theorem mm_malloc_first_fit_witness:
  "(300 :: 64 word) \<noteq> 0 \<and> (5000 :: 64 word) \<noteq> 0
   \<and> chain (mem fit_heap) (HEAD fit_heap) [0x1020, 0x10c0, 0x1e10]
   \<and> GET_SIZE fit_heap (HDRP 0x1020) = 128
   \<and> GET_SIZE fit_heap (HDRP 0x10c0) = 3376
   \<and> GET_SIZE fit_heap (HDRP 0x1e10) = 528
   \<and> first_fit fit_heap (adjust_size 300) [0x1020, 0x10c0, 0x1e10] = Some 0x10c0
   \<and> mm_malloc 300 fit_heap = Some (0x10c0, place 0x10c0 320 fit_heap)
   \<and> grow_calls (place 0x10c0 320 fit_heap) = grow_calls fit_heap
   \<and> first_fit fit_heap (adjust_size 5000) [0x1020, 0x10c0, 0x1e10] = None
   \<and> mm_malloc 5000 fit_heap = Some (0x1e10, place 0x1e10 5024 grown_heap)
   \<and> grow_calls grown_heap = Suc (grow_calls fit_heap)"
proof -
  note c = fit_heap_list(1)
  have f: "first_fit fit_heap 320 [0x1020, 0x10c0, 0x1e10] = Some 0x10c0"
    "first_fit fit_heap 5024 [0x1020, 0x10c0, 0x1e10] = None"
    by (simp_all add: first_fit_def fit_heap_list)
  have e: "max_size 5024 CHUNKSIZE div WSIZE = 628"
    by (simp add: max_size_def CHUNKSIZE_def WSIZE_def)
  show ?thesis
    using mm_malloc_first_fit [of 300 fit_heap "[0x1020, 0x10c0, 0x1e10]"]
      mm_malloc_first_fit [of 5000 fit_heap "[0x1020, 0x10c0, 0x1e10]"] c f
    by (simp add: adjust_examples fit_heap_list e fit_heap_extend NULL_def)
qed

text \<open>
  C6, as stated: on the freshly initialised heap of the example region, whose only free
  block has 4096 bytes, \<open>mm_malloc 4000\<close> returns a block and the number of extensions of
  the region is the one it was before the call, not one more.
\<close>

theorem malloc_4000_growth_counterexample:
  "fst (mm_init example_region) = 0
   \<and> map_option (grow_calls \<circ> snd) (mm_malloc 4000 example_heap) = Some (grow_calls example_heap)
   \<and> map_option (grow_calls \<circ> snd) (mm_malloc 4000 example_heap)
       \<noteq> Some (grow_calls example_heap + 1)"
proof -
  have "find_fit 4016 example_heap = Some 0x1020"
    unfolding find_fit_def
    by (simp add: example_heap_eq init_state_def example_region_def macro_defs find_fit_from_hit)
  then show ?thesis
    by (simp add: mm_init_example mm_malloc_def adjust_4000 Let_def NULL_def)
qed

text \<open>
  C6, amended: after a successful \<open>mm_init\<close> a call \<open>mm_malloc 4000\<close> triggers no
  extension of the region. The adjusted size 4016 fits the free block of 4096 bytes that
  the initialisation created, so the request is placed at the first block, and the number
  of extensions and the end of the region stay as they were.
\<close>

theorem malloc_4000_no_growth:
  assumes "mm_init s = (0, s1)"
  shows "mm_malloc 4000 s1 = Some (heap_start s1 + 16, place (heap_start s1 + 16) 4016 s1)
         \<and> grow_calls (place (heap_start s1 + 16) 4016 s1) = grow_calls s1
         \<and> mem_brk (place (heap_start s1 + 16) 4016 s1) = mem_brk s1"
proof -
  note i = mm_init_success [OF assms]
  have ff: "find_fit 4016 s1 = Some (mem_brk s + 32)"
    unfolding find_fit_def i(1) init_state_facts
    by (rule find_fit_from_hit) (simp_all add: init_state_facts i(3) NULL_def)
  have hp: "heap_start s1 + 16 = mem_brk s + 32"
    by (simp add: i(1) init_state_facts)
  show ?thesis
    unfolding hp using ff i(3) by (simp add: mm_malloc_def adjust_4000 Let_def NULL_def)
qed

theorem malloc_4000_no_growth_witness:
  "mm_init example_region = (0, example_heap)
   \<and> mm_malloc 4000 example_heap
       = Some (heap_start example_heap + 16, place (heap_start example_heap + 16) 4016 example_heap)
   \<and> grow_calls (place (heap_start example_heap + 16) 4016 example_heap) = grow_calls example_heap"
proof -
  have h: "mm_init example_region = (0, example_heap)"
    by (simp add: mm_init_example example_heap_eq)
  show ?thesis using malloc_4000_no_growth [OF h] h by simp
qed

text \<open>
  C8, at a request close to the largest \<open>size_t\<close>: the sum \<open>size + OVERHEAD + (DSIZE - 1)\<close>
  wraps around, and the adjusted size is 16, below the floor of 32 bytes.
\<close>

theorem adjust_size_wraps:
  "adjust_size 0xFFFFFFFFFFFFFFFF = 16 \<and> \<not> DSIZE + OVERHEAD \<le> adjust_size 0xFFFFFFFFFFFFFFFF"
  by (simp add: adjust_size_def DSIZE_def OVERHEAD_def)








text \<open>
  C3, at a request whose adjusted size wraps around: on the example heap the client asks
  for \<open>2\<^sup>6\<^sup>4 - 1\<close> bytes and gets \<open>0x1020\<close>, a block of 16 bytes, asks for 16 bytes and
  gets \<open>0x1030\<close>, and frees \<open>0x1020\<close>. The links that \<open>add_to_list\<close> writes into the freed
  block do not fit into its 16 bytes: the word of the previous-link is the header of
  \<open>0x1030\<close>. Afterwards the header of \<open>0x1020\<close> and the header of the block that follows
  it in the heap both have the allocated bit clear: two adjacent blocks are marked free.
\<close>

theorem adjacent_free_after_wrap:
  "mm_malloc 0xFFFFFFFFFFFFFFFF example_heap = Some (0x1020, wrap_a)
   \<and> mm_malloc 16 wrap_a = Some (0x1030, wrap_b)
   \<and> wrap_c = mm_free 0x1020 wrap_b
   \<and> GET_ALLOC wrap_c (HDRP 0x1020) = 0
   \<and> NEXT_BLKP wrap_c 0x1020 = 0x1030
   \<and> GET_ALLOC wrap_c (HDRP 0x1030) = 0"
proof -
  have "GET_ALLOC wrap_c (HDRP 0x1020) = 0" "NEXT_BLKP wrap_c 0x1020 = 0x1030"
    "GET_ALLOC wrap_c (HDRP 0x1030) = 0"
    by (simp_all add: wrap_c_eq macro_defs)
  then show ?thesis using wrap_a_call wrap_b_call by (simp add: wrap_c_def)
qed

text \<open>
  C4, at a request whose adjusted size wraps around: on the example heap a request of
  \<open>2\<^sup>6\<^sup>4 - 20\<close> bytes is given the adjusted size 0 and succeeds. \<open>place\<close> then writes the
  footer of a block of 0 bytes at \<open>0x1020\<close>, which is the footer of the prologue block:
  afterwards the prologue has the header word 17 and the footer word 1.
\<close>

theorem prologue_tags_differ_after_wrap:
  "mm_init example_region = (0, example_heap)
   \<and> mm_malloc 0xFFFFFFFFFFFFFFEC example_heap = Some (0x1020, overflow_heap)
   \<and> GET overflow_heap (HDRP (heap_start overflow_heap)) = 17
   \<and> GET overflow_heap (FTRP overflow_heap (heap_start overflow_heap)) = 1"
proof -
  have "GET overflow_heap (HDRP (heap_start overflow_heap)) = 17"
    "GET overflow_heap (FTRP overflow_heap (heap_start overflow_heap)) = 1"
    by (simp_all add: overflow_heap_eq macro_defs)
  then show ?thesis using overflow_heap_call by (simp add: mm_init_example example_heap_eq)
qed

text \<open>
  C9, at a request whose adjusted size wraps around: on the example heap a request of
  \<open>2\<^sup>6\<^sup>4 - 20\<close> bytes is given the adjusted size 0 and returns \<open>0x1020\<close>. \<open>place\<close> takes
  the block out of the free list and puts the remainder, which starts at the same
  address, back in: afterwards the free list consists of the block \<open>0x1020\<close>, whose header
  has the allocated bit set and which the client holds.
\<close>

theorem allocated_block_on_free_list_after_wrap:
  "mm_malloc 0xFFFFFFFFFFFFFFEC example_heap = Some (0x1020, overflow_heap)
   \<and> chain (mem overflow_heap) (HEAD overflow_heap) [0x1020]
   \<and> GET_ALLOC overflow_heap (HDRP 0x1020) = 1"
proof -
  have "chain (mem overflow_heap) (HEAD overflow_heap) [0x1020]"
    "GET_ALLOC overflow_heap (HDRP 0x1020) = 1"
    by (simp_all add: overflow_heap_eq macro_defs)
  then show ?thesis using overflow_heap_call by simp
qed

end
